theory Spec2Isabelle
  imports Main "HOL-Library.Word" "HOL-Library.Char_ord" "HOL-Library.List_Lexorder"
    "HOL-Library.Monad_Syntax" "HOL-Library.Multiset"
begin

section \<open>Conventions of the embedding\<close>

text \<open>
  A C++ \<^verbatim>\<open>int\<close> is modelled by \<^typ>\<open>int\<close>, and \<open>static_cast_int\<close> brings a value into
  the range of a 32-bit \<^verbatim>\<open>int\<close>: the value modulo \<open>2^32\<close> in two's complement. It is the
  conversion \<^verbatim>\<open>static_cast<int>\<close> of a size or of a stream position, and it is what the
  compiled program computes where an \<^verbatim>\<open>int\<close> sum or product leaves the range. In the
  evaluator, where keys are sums of table entries of any size, every \<^verbatim>\<open>int\<close> operation is
  written with it. Elsewhere the sums are of card counts, seat numbers and positions and are
  left as they are.

  A \<^verbatim>\<open>vector\<close> is a list. \<^verbatim>\<open>v[i]\<close> of the source performs no check, and an index
  outside the vector is undefined behaviour; \<open>at\<close> makes that visible: it yields \<open>None\<close>
  exactly when the read is out of range. A function that reads vectors therefore lives in
  the option monad, and \<open>None\<close> stands for "the program left the vector".

  What the source prints on \<^verbatim>\<open>cerr\<close> is returned as a list of diagnostics.
\<close>

definition at :: "'a list \<Rightarrow> int \<Rightarrow> 'a option" where
  "at xs i = (if 0 \<le> i \<and> i < int (length xs) then Some (xs ! nat i) else None)"

definition static_cast_int :: "int \<Rightarrow> int" where
  "static_cast_int n = (n + 2147483648) mod 4294967296 - 2147483648"

text \<open>
  The test \<^verbatim>\<open>i >= 0 && i < static_cast<int>(v.size())\<close> that the source makes before it
  reads \<^verbatim>\<open>v[i]\<close>.
\<close>

definition inside :: "'a list \<Rightarrow> int \<Rightarrow> bool" where
  "inside xs i = (0 \<le> i \<and> i < static_cast_int (int (length xs)))"

section \<open>The evaluator (simulator.cpp)\<close>

text \<open>
  The three tables of the class \<^verbatim>\<open>Simulator\<close>. Their declaration and the constructor that
  fills them are in \<^verbatim>\<open>simulator.h\<close>, which is not among the sources; they are parameters.
\<close>

record simulator =
  c_table :: "int list"
  table :: "int list"
  replace :: "int list"

datatype diagnostic =
    Index_out_of_bounds_in_to_ckey int
  | Selection_size_less_than_7
  | Key_out_of_bounds_in_evaluate_selection int
  | Not_enough_cards_remaining
  | Sample_index_out_of_range
  | No_samples_available

text \<open>
  \<^verbatim>\<open>Simulator::to_ckey\<close>: the loop over the positions of the hand, \<open>i\<close> counting from 0.
  The index is computed in \<^verbatim>\<open>size_t\<close> and narrowed to \<^verbatim>\<open>int\<close>; the key is an \<^verbatim>\<open>int\<close>.
\<close>

fun to_ckey_loop :: "int list \<Rightarrow> int \<Rightarrow> int list \<Rightarrow> int \<Rightarrow> (diagnostic list \<times> int) option" where
  "to_ckey_loop ct i [] key = Some ([], key)"
| "to_ckey_loop ct i (h # hand) key =
     (let table_index = static_cast_int ((i + 1) * 53 + h) in
      if inside ct table_index
      then do {
        c \<leftarrow> at ct table_index;
        to_ckey_loop ct (i + 1) hand (static_cast_int (key + c))
      }
      else Some ([Index_out_of_bounds_in_to_ckey table_index], 0))"

definition to_ckey :: "simulator \<Rightarrow> int list \<Rightarrow> (diagnostic list \<times> int) option" where
  "to_ckey sim hand = to_ckey_loop (c_table sim) 0 hand 0"

text \<open>
  One round of the substitution loop of \<^verbatim>\<open>evaluate_selection\<close>, for the even \<open>j\<close>. The state
  is \<open>(hand, key, max_score)\<close>. The guard is the short-circuit disjunction of the source: it
  reads \<^verbatim>\<open>replace[j]\<close> only when \<open>j + 1\<close> is inside \<^verbatim>\<open>replace\<close>.
\<close>

definition eval_step :: "simulator \<Rightarrow> int list \<Rightarrow> int list \<times> int \<times> int \<Rightarrow> int
    \<Rightarrow> (int list \<times> int \<times> int) option" where
  "eval_step sim selection st j =
     (case st of (hand, key, max_score) \<Rightarrow>
        if j + 1 \<ge> static_cast_int (int (length (replace sim))) then Some st
        else do {
          rj \<leftarrow> at (replace sim) j;
          if rj \<ge> 5 then Some st
          else do {
            rj1 \<leftarrow> at (replace sim) (j + 1);
            if rj1 \<ge> static_cast_int (int (length selection)) then Some st
            else do {
              s \<leftarrow> at selection rj1;
              h \<leftarrow> at hand rj;
              let ix_k = static_cast_int (static_cast_int (rj + 1) * 53);
              let index1 = static_cast_int (ix_k + s);
              let index2 = static_cast_int (ix_k + h);
              if inside (c_table sim) index1 \<and> inside (c_table sim) index2
              then do {
                c1 \<leftarrow> at (c_table sim) index1;
                c2 \<leftarrow> at (c_table sim) index2;
                let key' = static_cast_int (key + static_cast_int (c1 - c2));
                let hand' = hand[nat rj := s];
                if inside (table sim) key'
                then do { t \<leftarrow> at (table sim) key'; Some (hand', key', max max_score t) }
                else Some (hand', key', max_score)
              }
              else Some st
            }
          }
        })"

fun eval_loop :: "simulator \<Rightarrow> int list \<Rightarrow> int list \<Rightarrow> int list \<times> int \<times> int
    \<Rightarrow> (int list \<times> int \<times> int) option" where
  "eval_loop sim selection [] st = Some st"
| "eval_loop sim selection (j # js) st =
     do { st' \<leftarrow> eval_step sim selection st j; eval_loop sim selection js st' }"

text \<open>The values of \<open>j\<close> of \<^verbatim>\<open>for (int j = 0; j < 40; j += 2)\<close>.\<close>

definition loop_indices :: "int list" where
  "loop_indices = map (\<lambda>k. 2 * int k) [0..<20]"

text \<open>
  \<^verbatim>\<open>Simulator::evaluate_selection\<close>. The selection is taken by value and sorted first; the
  size test comes after the sort, as in the source. The result is the diagnostics printed
  and the value returned.
\<close>

definition evaluate_selection :: "simulator \<Rightarrow> int list \<Rightarrow> (diagnostic list \<times> int) option" where
  "evaluate_selection sim selection0 =
     (let selection = sort selection0 in
      if length selection < 7 then Some ([Selection_size_less_than_7], - 1)
      else do {
        hand \<leftarrow> those (map (\<lambda>i. at selection (int i + 2)) [0..<5]);
        (log, key) \<leftarrow> to_ckey sim hand;
        if key < 0 \<or> key \<ge> static_cast_int (int (length (table sim)))
        then Some (log @ [Key_out_of_bounds_in_evaluate_selection key], 0)
        else do {
          max_score \<leftarrow> at (table sim) key;
          (hand', key', max_score') \<leftarrow> eval_loop sim selection loop_indices (hand, key, max_score);
          Some (log, max_score')
        }
      })"

section \<open>Remaining deck (simulator.cpp, Simulator::get_remaining)\<close>

text \<open>
  The vector \<^verbatim>\<open>filled\<close> of 52 flags is a list of booleans; a card outside \<open>[0,52)\<close> is
  skipped by the guard of the source.
\<close>

definition mark_filled :: "bool list \<Rightarrow> int list \<Rightarrow> bool list" where
  "mark_filled filled cards =
     foldl (\<lambda>f card. if 0 \<le> card \<and> card < 52 then f[nat card := True] else f) filled cards"

definition get_remaining :: "int list \<Rightarrow> int list list \<Rightarrow> int list" where
  "get_remaining comm_hand known_hands =
     (let filled0 = replicate 52 False;
          filled1 = mark_filled filled0 comm_hand;
          filled2 = foldl mark_filled filled1 known_hands
      in filter (\<lambda>i. \<not> filled2 ! nat i) (map int [0..<52]))"

section \<open>Sampling the missing cards (simulator.cpp, Simulator::fill_empty)\<close>

text \<open>
  \<^verbatim>\<open>gen_samples\<close> is declared in \<^verbatim>\<open>samples.h\<close>, which is not among the sources: it is the
  parameter \<open>gen\<close>, called as \<open>gen N c pool_size\<close>. The inner loop replaces, in one sample,
  each drawn index by the card at that index of the remaining deck.
\<close>

definition map_sample :: "int list \<Rightarrow> int \<Rightarrow> int list \<Rightarrow> diagnostic list \<times> int list" where
  "map_sample remaining c sample =
     foldl (\<lambda>(log, s) i.
              if 0 \<le> s ! i \<and> s ! i < int (length remaining)
              then (log, s[i := remaining ! nat (s ! i)])
              else (log @ [Sample_index_out_of_range], s))
       ([], sample) [0..<min (nat c) (length sample)]"

definition fill_empty :: "(int \<Rightarrow> int \<Rightarrow> int \<Rightarrow> int list list) \<Rightarrow> int \<Rightarrow> int list \<Rightarrow> int list list
    \<Rightarrow> int \<Rightarrow> diagnostic list \<times> int list list" where
  "fill_empty gen N comm_hand known_hands players_unknown =
     (let remaining = get_remaining comm_hand known_hands;
          c = players_unknown * 2 + 5 - int (length comm_hand)
      in if int (length remaining) < c then ([Not_enough_cards_remaining], [])
         else (let samples = gen N c (int (length remaining));
                   mapped = map (map_sample remaining c) samples
               in (concat (map fst mapped), map snd mapped)))"

section \<open>One trial (simulator.cpp, update_winners, simulate, calculate)\<close>

text \<open>\<^verbatim>\<open>update_winners\<close> changes \<^verbatim>\<open>max_val\<close> and \<^verbatim>\<open>winners\<close> through references: both are returned.\<close>

definition update_winners :: "int \<Rightarrow> int \<Rightarrow> int \<Rightarrow> int list \<Rightarrow> int \<times> int list" where
  "update_winners my_val max_val ix winners =
     (if my_val > max_val then (my_val, [ix])
      else if my_val = max_val then (max_val, winners @ [ix])
      else (max_val, winners))"

text \<open>
  The body the two loops of \<^verbatim>\<open>simulate\<close> share: write the two hole cards into the slots 5
  and 6 of the selection, evaluate, and let a non-negative result compete. The state is
  \<open>(selection, max_val, winners)\<close>. What the evaluator prints on \<^verbatim>\<open>cerr\<close> has no
  effect on the tallies and is not kept from here on.
\<close>

definition seat_eval :: "simulator \<Rightarrow> int \<Rightarrow> int \<Rightarrow> int \<Rightarrow> int list \<times> int \<times> int list
    \<Rightarrow> (int list \<times> int \<times> int list) option" where
  "seat_eval sim c5 c6 ix st =
     (case st of (selection, max_val, winners) \<Rightarrow>
        if length selection < 7 then None
        else (let selection' = selection[5 := c5, 6 := c6] in
          do {
            (log, eval_result) \<leftarrow> evaluate_selection sim selection';
            if eval_result \<ge> 0
            then (case update_winners eval_result max_val ix winners of
                    (max_val', winners') \<Rightarrow> Some (selection', max_val', winners'))
            else Some (selection', max_val, winners)
          }))"

fun simulate_known :: "simulator \<Rightarrow> int list list \<Rightarrow> int \<Rightarrow> int list \<times> int \<times> int list
    \<Rightarrow> (int list \<times> int \<times> int list) option" where
  "simulate_known sim [] i st = Some st"
| "simulate_known sim (known_hand # rest) i st =
     (if length known_hand < 2 then simulate_known sim rest (i + 1) st
      else do {
        c5 \<leftarrow> at known_hand 0;
        c6 \<leftarrow> at known_hand 1;
        st' \<leftarrow> seat_eval sim c5 c6 i st;
        simulate_known sim rest (i + 1) st'
      })"

function simulate_unknown :: "simulator \<Rightarrow> int \<Rightarrow> int list \<Rightarrow> int \<Rightarrow> int \<Rightarrow> int list \<times> int \<times> int list
    \<Rightarrow> (int list \<times> int \<times> int list) option" where
  "simulate_unknown sim n_known sample start i st =
     (if start + i * 2 + 1 < int (length sample)
      then do {
        c5 \<leftarrow> at sample (start + i * 2);
        c6 \<leftarrow> at sample (start + i * 2 + 1);
        st' \<leftarrow> seat_eval sim c5 c6 (n_known + i) st;
        simulate_unknown sim n_known sample start (i + 1) st'
      }
      else Some st)"
  by pat_completeness auto
termination
  by (relation "measure (\<lambda>(sim, n_known, sample, start, i, st).
        nat (int (length sample) - (start + i * 2 + 1)))") auto

text \<open>
  \<^verbatim>\<open>simulate\<close> takes the selection by reference: the selection it leaves behind is returned
  with the winners.
\<close>

definition simulate :: "simulator \<Rightarrow> int list \<Rightarrow> int list list \<Rightarrow> int list \<Rightarrow> int
    \<Rightarrow> (int list \<times> int list) option" where
  "simulate sim selection known_hands sample start =
     (let selection1 = (if length selection < 7
                        then selection @ replicate (7 - length selection) 0 else selection)
      in do {
        st1 \<leftarrow> simulate_known sim known_hands 0 (selection1, 0, []);
        (selection2, max_val, winners) \<leftarrow>
          simulate_unknown sim (int (length known_hands)) sample start 0 st1;
        Some (selection2, winners)
      })"

text \<open>\<^verbatim>\<open>results[w][k]++\<close>, a read and a write of an inner vector.\<close>

definition increment :: "int list list \<Rightarrow> int \<Rightarrow> int \<Rightarrow> int list list option" where
  "increment results w k =
     do {
       row \<leftarrow> at results w;
       v \<leftarrow> at row k;
       Some (results[nat w := row[nat k := v + 1]])
     }"

fun tie_loop :: "int list \<Rightarrow> int list list \<Rightarrow> int list list option" where
  "tie_loop [] results = Some results"
| "tie_loop (winner # rest) results =
     (if winner \<ge> 0 \<and> winner < int (length results)
      then do { results' \<leftarrow> increment results winner 1; tie_loop rest results' }
      else tie_loop rest results)"

text \<open>The tally at the end of the body of the loop over the samples in \<^verbatim>\<open>calculate\<close>.\<close>

definition tally :: "int list \<Rightarrow> int list list \<Rightarrow> int list list option" where
  "tally winners results =
     (if length winners = 1 \<and> winners ! 0 < int (length results)
      then increment results (winners ! 0) 0
      else tie_loop winners results)"

text \<open>
  The first loop of that body copies the sampled board cards into the slots
  \<open>4, 3, \<dots>\<close> of the selection.
\<close>

definition fill_board :: "int \<Rightarrow> int list \<Rightarrow> int list \<Rightarrow> int list" where
  "fill_board s_comm sample selection =
     foldl (\<lambda>sel i. if 4 - int i \<ge> 0 \<and> 4 - int i < 7 then sel[nat (4 - int i) := sample ! i] else sel)
       selection [0..<min (nat s_comm) (length sample)]"

text \<open>The body of the loop over the samples: the state is \<open>(selection, results)\<close>.\<close>

definition trial :: "simulator \<Rightarrow> int list list \<Rightarrow> int \<Rightarrow> int list \<times> int list list \<Rightarrow> int list
    \<Rightarrow> (int list \<times> int list list) option" where
  "trial sim known_hands s_comm st sample =
     (case st of (selection, results) \<Rightarrow>
        do {
          (selection', winners) \<leftarrow>
            simulate sim (fill_board s_comm sample selection) known_hands sample s_comm;
          results' \<leftarrow> tally winners results;
          Some (selection', results')
        })"

fun trials :: "simulator \<Rightarrow> int list list \<Rightarrow> int \<Rightarrow> int list list \<Rightarrow> int list \<times> int list list
    \<Rightarrow> (int list \<times> int list list) option" where
  "trials sim known_hands s_comm [] st = Some st"
| "trials sim known_hands s_comm (sample # samples) st =
     do { st' \<leftarrow> trial sim known_hands s_comm st sample; trials sim known_hands s_comm samples st' }"

text \<open>
  \<^verbatim>\<open>calculate\<close>. The vector \<^verbatim>\<open>results\<close> is constructed with the count
  \<^verbatim>\<open>known_hands.size() + players_unknown\<close>, a sum in \<^verbatim>\<open>size_t\<close>. When the number of known
  hands plus \<^verbatim>\<open>players_unknown\<close> is negative, that count is above \<^verbatim>\<open>max_size()\<close> and the
  constructor throws \<^verbatim>\<open>std::length_error\<close>, which neither \<^verbatim>\<open>calculate\<close> nor
  \<^verbatim>\<open>compute_probabilities\<close> catches; otherwise the count is the sum. The vector is built
  after the test for samples and before the loop over them.
\<close>

datatype calculated = Length_error | Results "int list list"

definition calculate :: "simulator \<Rightarrow> (int \<Rightarrow> int \<Rightarrow> int \<Rightarrow> int list list) \<Rightarrow> int \<Rightarrow> int list \<Rightarrow> int list list
    \<Rightarrow> int \<Rightarrow> (diagnostic list \<times> calculated) option" where
  "calculate sim gen N comm_hand known_hands players_unknown =
     (case fill_empty gen N comm_hand known_hands players_unknown of (log, samples) \<Rightarrow>
        if samples = [] then Some (log @ [No_samples_available], Results [])
        else if int (length known_hands) + players_unknown < 0 then Some (log, Length_error)
        else (let selection = take 7 comm_hand @ replicate (7 - length comm_hand) 0;
                  results = replicate (nat (int (length known_hands) + players_unknown)) [0, 0];
                  s_comm = 5 - int (length comm_hand)
              in do {
                (selection', results') \<leftarrow> trials sim known_hands s_comm samples (selection, results);
                Some (log, Results results')
              }))"

section \<open>The request loop (main.cpp)\<close>

definition isValidCard :: "string \<Rightarrow> bool" where
  "isValidCard token =
     (if length token \<noteq> 2 then False
      else (let rank = token ! 0;
                suit = token ! 1;
                valid_rank = ((rank \<ge> CHR ''2'' \<and> rank \<le> CHR ''9'') \<or>
                              rank = CHR ''T'' \<or> rank = CHR ''J'' \<or>
                              rank = CHR ''Q'' \<or> rank = CHR ''K'' \<or> rank = CHR ''A'');
                valid_suit = (suit = CHR ''c'' \<or> suit = CHR ''d'' \<or>
                              suit = CHR ''h'' \<or> suit = CHR ''s'')
            in valid_rank \<and> valid_suit))"

text \<open>
  \<^verbatim>\<open>while (getline(ss, part, delim))\<close> over a string stream: the parts between the
  delimiters. A call that meets the end of the stream before it extracts anything fails,
  so the empty string has no part and a delimiter at the very end opens no further part.
  \<open>cur\<close> is what the running call has extracted.
\<close>

fun getline_all :: "char \<Rightarrow> string \<Rightarrow> string \<Rightarrow> string list" where
  "getline_all delim cur [] = (if cur = [] then [] else [cur])"
| "getline_all delim cur (c # cs) =
     (if c = delim then cur # getline_all delim [] cs
      else getline_all delim (cur @ [c]) cs)"

datatype stderr_line =
    Invalid_card string
  | Loading_lookup_table
  | Lookup_table_loaded
  | Daemon_marker_start
  | Received_EXIT

text \<open>
  \<^verbatim>\<open>parseCards\<close>: the tokens between commas, spaces removed; an empty token is skipped, an
  invalid one is printed on \<^verbatim>\<open>cerr\<close> and makes the result the empty vector.
\<close>

fun parseCards_loop :: "string list \<Rightarrow> string list \<Rightarrow> stderr_line list \<times> string list" where
  "parseCards_loop [] cards = ([], cards)"
| "parseCards_loop (tok # toks) cards =
     (let card = filter (\<lambda>ch. ch \<noteq> CHR '' '') tok in
      if card \<noteq> [] \<and> isValidCard card then parseCards_loop toks (cards @ [card])
      else if card \<noteq> [] then ([Invalid_card card], [])
      else parseCards_loop toks cards)"

definition parseCards :: "string \<Rightarrow> stderr_line list \<times> string list" where
  "parseCards input =
     (if input = [] then ([], []) else parseCards_loop (getline_all CHR '','' [] input) [])"

text \<open>
  \<^verbatim>\<open>std::stoi\<close> in base 10: leading white space, an optional sign, then the longest run of
  digits; what follows is ignored. It throws \<^verbatim>\<open>invalid_argument\<close> when there is no digit
  and \<^verbatim>\<open>out_of_range\<close> when the value does not fit an \<^verbatim>\<open>int\<close>.
\<close>

datatype exn = Invalid_argument | Out_of_range

definition isspace :: "char \<Rightarrow> bool" where
  "isspace ch = (ch = CHR '' '' \<or> (CHR 0x09 \<le> ch \<and> ch \<le> CHR 0x0D))"

definition isdigit :: "char \<Rightarrow> bool" where
  "isdigit ch = (CHR ''0'' \<le> ch \<and> ch \<le> CHR ''9'')"

definition digits_value :: "string \<Rightarrow> int" where
  "digits_value ds = foldl (\<lambda>a d. 10 * a + (of_char d - 48)) 0 ds"

definition stoi :: "string \<Rightarrow> exn + int" where
  "stoi str =
     (let s1 = dropWhile isspace str;
          neg = (s1 \<noteq> [] \<and> hd s1 = CHR ''-'');
          s2 = (if s1 \<noteq> [] \<and> (hd s1 = CHR ''-'' \<or> hd s1 = CHR ''+'') then tl s1 else s1);
          ds = takeWhile isdigit s2;
          v = (if neg then - digits_value ds else digits_value ds)
      in if ds = [] then Inl Invalid_argument
         else if v < - 2147483648 \<or> v > 2147483647 then Inl Out_of_range
         else Inr v)"

datatype error_message =
    Invalid_command_format
  | Opponents_must_be_1_8
  | Iterations_must_be_100_1000000
  | Board_cannot_have_more_than_5_cards
  | Need_exactly_2_hole_cards
  | Duplicate_cards_detected
  | Exception_what exn
  | Unknown_command string

text \<open>
  A line of \<^verbatim>\<open>cout\<close>. \<open>Result_line wins ties iterations\<close> is the success response: the
  rates it prints are the floating-point quotients \<open>100 * wins / iterations\<close> and
  \<open>100 * ties / iterations\<close>, of which the embedding keeps the integers.
\<close>

datatype stdout_line =
    READY
  | Marker_line
  | Error_line error_message
  | Result_line int int int

text \<open>
  What the daemon does, in order: a line on \<^verbatim>\<open>cout\<close>, a line on \<^verbatim>\<open>cerr\<close>, a call
  \<open>Simulation iterations comm_hand known_hands opponents\<close> of
  \<^verbatim>\<open>Simulator::compute_probabilities\<close>, or a read outside a vector.
\<close>

datatype event =
    Stdout stdout_line
  | Stderr stderr_line
  | Simulation int "string list" "string list list" int
  | Undefined_behaviour

text \<open>\<^verbatim>\<open>command.erase(command.find_last_not_of(" \n\r\t") + 1)\<close>.\<close>

definition rtrim :: "string \<Rightarrow> string" where
  "rtrim command =
     rev (dropWhile (\<lambda>ch. ch \<in> {CHR '' '', CHR 0x0A, CHR 0x0D, CHR 0x09}) (rev command))"

text \<open>
  The body of the inner \<^verbatim>\<open>try\<close> for one \<^verbatim>\<open>CALC\<close> command, \<open>params\<close> being the command
  without its first five characters. The simulation draws random samples; what it returns is
  the parameter \<open>compute\<close>. An exception of \<^verbatim>\<open>stoi\<close> is caught by the handler of the
  \<^verbatim>\<open>try\<close>, which prints its \<^verbatim>\<open>what()\<close> as an error response.
\<close>

definition handle_calc :: "(int \<Rightarrow> string list \<Rightarrow> string list list \<Rightarrow> int \<Rightarrow> int list list)
    \<Rightarrow> string \<Rightarrow> event list" where
  "handle_calc compute params =
     (let parts = getline_all CHR ''|'' [] params in
      if length parts \<noteq> 4 then [Stdout (Error_line Invalid_command_format)]
      else (let board_str = parts ! 0; hole_str = parts ! 1 in
        case stoi (parts ! 2) of
          Inl e \<Rightarrow> [Stdout (Error_line (Exception_what e))]
        | Inr opponents \<Rightarrow>
        (case stoi (parts ! 3) of
          Inl e \<Rightarrow> [Stdout (Error_line (Exception_what e))]
        | Inr iterations \<Rightarrow>
          if opponents < 1 \<or> opponents > 8 then [Stdout (Error_line Opponents_must_be_1_8)]
          else if iterations < 100 \<or> iterations > 1000000
          then [Stdout (Error_line Iterations_must_be_100_1000000)]
          else (case parseCards board_str of (err1, comm_hand) \<Rightarrow>
            if length comm_hand > 5
            then map Stderr err1 @ [Stdout (Error_line Board_cannot_have_more_than_5_cards)]
            else (case parseCards hole_str of (err2, hole_cards) \<Rightarrow>
              if length hole_cards \<noteq> 2
              then map Stderr (err1 @ err2) @ [Stdout (Error_line Need_exactly_2_hole_cards)]
              else (let known_hands = [hole_cards];
                        all_cards = sort (comm_hand @ hole_cards)
                    in if remdups_adj all_cards \<noteq> all_cards
                       then map Stderr (err1 @ err2) @ [Stdout (Error_line Duplicate_cards_detected)]
                       else map Stderr (err1 @ err2) @
                            [Simulation iterations comm_hand known_hands opponents] @
                            (case compute iterations comm_hand known_hands opponents of
                               (wins # ties # row) # rows \<Rightarrow>
                                 [Stdout (Result_line wins ties iterations)]
                             | _ \<Rightarrow> [Undefined_behaviour])))))))"

text \<open>
  The \<^verbatim>\<open>while (getline(cin, command))\<close> loop of \<^verbatim>\<open>runDaemonMode\<close> over the lines of the
  input, with the flag \<^verbatim>\<open>marker_sent\<close>. Nothing is said of a run after a read outside a vector.
\<close>

fun daemon_loop :: "(int \<Rightarrow> string list \<Rightarrow> string list list \<Rightarrow> int \<Rightarrow> int list list)
    \<Rightarrow> bool \<Rightarrow> string list \<Rightarrow> event list" where
  "daemon_loop compute marker_sent [] = []"
| "daemon_loop compute marker_sent (line # rest) =
     (let command = rtrim line in
      if command = ''EXIT'' then [Stderr Received_EXIT]
      else if take 5 command = ''CALC ''
      then (let events = (if \<not> marker_sent then [Stdout Marker_line] else []) @
                         handle_calc compute (drop 5 command)
            in if Undefined_behaviour \<in> set events then events
               else events @ daemon_loop compute True rest)
      else Stdout (Error_line (Unknown_command command)) # daemon_loop compute marker_sent rest)"

text \<open>\<^verbatim>\<open>runDaemonMode\<close>, once the constructor of the simulator has returned.\<close>

definition runDaemonMode :: "(int \<Rightarrow> string list \<Rightarrow> string list list \<Rightarrow> int \<Rightarrow> int list list)
    \<Rightarrow> string list \<Rightarrow> event list" where
  "runDaemonMode compute input =
     [Stderr Loading_lookup_table, Stderr Lookup_table_loaded, Stdout READY,
      Stderr Daemon_marker_start] @ daemon_loop compute False input"


text \<open>
  \<^verbatim>\<open>Simulator::compute_probabilities\<close> (simulator.cpp). \<^verbatim>\<open>convert_hand\<close> is declared in
  \<^verbatim>\<open>cards.h\<close>, which is not among the sources: it is a parameter.
\<close>

definition compute_probabilities :: "simulator \<Rightarrow> (int \<Rightarrow> int \<Rightarrow> int \<Rightarrow> int list list)
    \<Rightarrow> (string list \<Rightarrow> int list) \<Rightarrow> int \<Rightarrow> string list \<Rightarrow> string list list \<Rightarrow> int
    \<Rightarrow> (diagnostic list \<times> calculated) option" where
  "compute_probabilities sim gen convert_hand N comm_hand_str known_hands_str players_unknown =
     calculate sim gen N (convert_hand comm_hand_str) (map convert_hand known_hands_str)
       players_unknown"

text \<open>
  \<^verbatim>\<open>cardStrToInt\<close> (main.cpp): \<^verbatim>\<open>string::find\<close> yields the position of the character, or
  \<^verbatim>\<open>npos\<close>, which the conversion to \<^verbatim>\<open>int\<close> turns into \<open>-1\<close>. It is applied to cards of two
  characters.
\<close>

definition find_char :: "string \<Rightarrow> char \<Rightarrow> int" where
  "find_char str ch =
     (if ch \<in> set str then int (length (takeWhile (\<lambda>x. x \<noteq> ch) str)) else - 1)"

definition cardStrToInt :: "string \<Rightarrow> int" where
  "cardStrToInt token =
     (let rank = find_char ''23456789TJQKA'' (token ! 0);
          suit = find_char ''cdhs'' (token ! 1)
      in rank + suit * 13)"

section \<open>A small instance of the tables\<close>

text \<open>
  The lookup tables are data of the deployment. For concrete runs: a contribution table of
  \<open>6 * 53\<close> entries in which a card contributes its own number at every position, a score
  table over the keys \<open>0..249\<close>, and a substitution table of 20 pairs that walks through the
  21 five-card subsets of seven sorted cards. They are an instance for concrete runs, not the
  tables of the repository, which the sources do not contain.
\<close>

definition example_sim :: simulator where
  "example_sim =
     \<lparr> c_table = map (\<lambda>i. int (i mod 53)) [0..<318],
       table = map (\<lambda>k. int ((k * 7) mod 31)) [0..<250],
       replace = [0, 0, 0, 1, 1, 2, 0, 0, 1, 1, 2, 2, 2, 3, 1, 2, 0, 1, 3, 4,
                  0, 0, 1, 1, 2, 2, 3, 3, 4, 4, 4, 5, 3, 4, 2, 3, 1, 2, 0, 1] \<rparr>"

text \<open>
  For concrete runs of the request loop and of the sampler: a simulation that reports
  half of the iterations as wins and three ties for the first seat, and a generator whose
  every sample is the first \<open>c\<close> indices of the pool.
\<close>

definition example_compute :: "int \<Rightarrow> string list \<Rightarrow> string list list \<Rightarrow> int \<Rightarrow> int list list" where
  "example_compute N comm_hand known_hands opponents = [[N div 2, 3]]"

definition example_gen :: "int \<Rightarrow> int \<Rightarrow> int \<Rightarrow> int list list" where
  "example_gen N c pool_size = replicate (nat N) (map int [0..<nat c])"

section \<open>Loading a table (tools.cpp)\<close>

text \<open>
  The file named by the argument is what the three streams of \<^verbatim>\<open>read_vect\<close> and
  \<^verbatim>\<open>filesize\<close> open: \<open>None\<close> when it cannot be opened, its bytes otherwise. An \<^verbatim>\<open>int\<close> has
  four bytes, stored least significant byte first.

  The stream position, a 64-bit integer, is converted to \<^verbatim>\<open>int\<close> by \<open>static_cast_int\<close>.
\<close>

datatype tools_diagnostic =
    Cannot_open_file
  | Cannot_open_lookup_table_file
  | Invalid_file_size int
  | Failed_to_read_lookup_table

definition filesize :: "8 word list option \<Rightarrow> tools_diagnostic list \<times> int" where
  "filesize resource =
     (case resource of
        None \<Rightarrow> ([Cannot_open_file], 0)
      | Some bytes \<Rightarrow> ([], int (length bytes)))"

text \<open>What \<^verbatim>\<open>f.read\<close> leaves in the array of \<^verbatim>\<open>int\<close>: one element per four bytes.\<close>

fun decode_ints :: "8 word list \<Rightarrow> int list" where
  "decode_ints (b0 # b1 # b2 # b3 # rest) =
     static_cast_int (int (unat b0 + 256 * unat b1 + 65536 * unat b2 + 16777216 * unat b3))
       # decode_ints rest"
| "decode_ints rest = []"

definition read_vect :: "8 word list option \<Rightarrow> tools_diagnostic list \<times> int list" where
  "read_vect resource =
     (case resource of
        None \<Rightarrow> ([Cannot_open_lookup_table_file], [])
      | Some bytes \<Rightarrow>
          (case filesize resource of (log, pos) \<Rightarrow>
             (let fsize = static_cast_int pos in
              if fsize \<le> 0 \<or> fsize mod 4 \<noteq> 0 then (log @ [Invalid_file_size fsize], [])
              else if resource \<noteq> None
              then (log, decode_ints (take (nat fsize) bytes))
              else (log @ [Failed_to_read_lookup_table], []))))"

section \<open>Notions for the statements\<close>

text \<open>
  The two tests of the loop on a line of input: the line is the termination command, or it is
  a calculation command (the test for \<^verbatim>\<open>EXIT\<close> comes first).
\<close>

definition is_exit :: "string \<Rightarrow> bool" where
  "is_exit line = (rtrim line = ''EXIT'')"

definition is_calc :: "string \<Rightarrow> bool" where
  "is_calc line = (rtrim line \<noteq> ''EXIT'' \<and> take 5 (rtrim line) = ''CALC '')"

text \<open>
  The cards that a field of a request names: the texts between its commas with the spaces
  removed, the empty ones left out. They are the tokens that \<^verbatim>\<open>parseCards\<close> tests one
  by one.
\<close>

definition card_tokens :: "string \<Rightarrow> string list" where
  "card_tokens field =
     filter (\<lambda>token. token \<noteq> [])
       (map (filter (\<lambda>ch. ch \<noteq> CHR '' '')) (getline_all CHR '','' [] field))"

text \<open>
  The indices into the contribution table that \<open>to_ckey\<close> computes for a hand, position by
  position from \<open>i\<close>, and the key of the hand when all of them are inside the table: the
  sum of the entries, as an \<^verbatim>\<open>int\<close>.
\<close>

fun hand_indices :: "int \<Rightarrow> int list \<Rightarrow> int list" where
  "hand_indices i [] = []"
| "hand_indices i (h # hand) = static_cast_int ((i + 1) * 53 + h) # hand_indices (i + 1) hand"

definition key_sum :: "int list \<Rightarrow> int \<Rightarrow> int list \<Rightarrow> int" where
  "key_sum ct i hand = static_cast_int (sum_list (map (\<lambda>idx. ct ! nat idx) (hand_indices i hand)))"

text \<open>A value that is an entry of the score table.\<close>

definition table_entry :: "simulator \<Rightarrow> int \<Rightarrow> bool" where
  "table_entry sim v = (v \<in> set (table sim))"

text \<open>
  Two mismatched deployments: contributions that fall as the card rises, with a score table
  cut off after the key 240; and empty tables.
\<close>

definition truncated_sim :: simulator where
  "truncated_sim =
     \<lparr> c_table = map (\<lambda>i. 52 - int (i mod 53)) [0..<318],
       table = map (\<lambda>k. int ((k * 7) mod 31)) [0..<241],
       replace = replace example_sim \<rparr>"

definition empty_sim :: simulator where
  "empty_sim = \<lparr> c_table = [], table = [], replace = replace example_sim \<rparr>"

section \<open>The best five of seven, stated\<close>

text \<open>
  \<open>score5\<close> is the spec's name for what the source computes at the head of
  \<^verbatim>\<open>evaluate_selection\<close> for the base hand: the key of a hand by \<open>to_ckey\<close>, then the
  entry of the score table at that key. It is defined where no bounds check of the source
  fails. The hand is given in ascending order, as every hand of the source is.
\<close>

definition score5 :: "simulator \<Rightarrow> int list \<Rightarrow> int option" where
  "score5 sim hand =
     do {
       (log, key) \<leftarrow> to_ckey sim hand;
       if log \<noteq> [] \<or> key < 0 \<or> key \<ge> static_cast_int (int (length (table sim))) then None
       else at (table sim) key
     }"

text \<open>The five-card subsets of a list of cards, each in the order of the list.\<close>

definition five_card_subsets :: "'a list \<Rightarrow> 'a list list" where
  "five_card_subsets cards = filter (\<lambda>h. length h = 5) (subseqs cards)"

text \<open>
  Modelled from the spec: the substitution table \<^verbatim>\<open>replace\<close> is declared in
  \<^verbatim>\<open>simulator.h\<close>, which is not among the sources. The spec describes it as a fixed table
  of 20 pairs (replaced position, replacement source position) that, from the base subset of
  the sorted seven, covers exactly the 21 five-card subsets. \<open>index_run\<close> follows the pairs
  on the positions \<open>0..6\<close> of the sorted selection, starting from the positions held by the
  hand, and lists the hands it meets; \<open>valid_schedule\<close> says that the table has its 40
  entries, that every pair names a position of the hand and a position of the selection, and
  that the hands met from the base hand \<open>2..6\<close> are the 21 subsets.
\<close>

fun index_run :: "int list \<Rightarrow> int list \<Rightarrow> nat list \<Rightarrow> nat list list" where
  "index_run rep [] positions = [positions]"
| "index_run rep (j # js) positions =
     positions # index_run rep js (positions[nat (rep ! nat j) := nat (rep ! nat (j + 1))])"

definition valid_pair :: "int list \<Rightarrow> int \<Rightarrow> bool" where
  "valid_pair rep j =
     (0 \<le> rep ! nat j \<and> rep ! nat j < 5 \<and> 0 \<le> rep ! nat (j + 1) \<and> rep ! nat (j + 1) < 7)"

definition valid_schedule :: "int list \<Rightarrow> bool" where
  "valid_schedule rep =
     (length rep = 40 \<and> list_all (valid_pair rep) loop_indices \<and>
      set (index_run rep loop_indices [2, 3, 4, 5, 6]) = set (five_card_subsets [0..<7]))"


section \<open>The seats of a trial, stated\<close>

text \<open>
  The seats that \<^verbatim>\<open>simulate\<close> evaluates, in its order, each with its index and its two hole
  cards: the known hands of at least two cards, counted from \<open>i\<close>, then the pairs of the
  sample from the position \<open>start\<close> on. Both follow the loops of the source.
\<close>

fun known_seats :: "int list list \<Rightarrow> int \<Rightarrow> (int \<times> int \<times> int) list" where
  "known_seats [] i = []"
| "known_seats (known_hand # rest) i =
     (if length known_hand < 2 then known_seats rest (i + 1)
      else (i, known_hand ! 0, known_hand ! 1) # known_seats rest (i + 1))"

function unknown_seats :: "int \<Rightarrow> int list \<Rightarrow> int \<Rightarrow> int \<Rightarrow> (int \<times> int \<times> int) list" where
  "unknown_seats n_known sample start i =
     (if start + i * 2 + 1 < int (length sample)
      then (n_known + i, sample ! nat (start + i * 2), sample ! nat (start + i * 2 + 1))
             # unknown_seats n_known sample start (i + 1)
      else [])"
  by pat_completeness auto
termination
  by (relation "measure (\<lambda>(n_known, sample, start, i).
        nat (int (length sample) - (start + i * 2 + 1)))") auto

definition seat_list :: "int list list \<Rightarrow> int list \<Rightarrow> int \<Rightarrow> (int \<times> int \<times> int) list" where
  "seat_list known_hands sample start =
     known_seats known_hands 0 @ unknown_seats (int (length known_hands)) sample start 0"

text \<open>
  The evaluated seats with their scores: a seat competes when the evaluator returns a value
  that is not negative, as the test \<^verbatim>\<open>eval_result >= 0\<close> of the source has it.
\<close>

definition evaluated_seats :: "simulator \<Rightarrow> int list \<Rightarrow> (int \<times> int \<times> int) list \<Rightarrow> (int \<times> int) list" where
  "evaluated_seats sim selection seats =
     concat (map (\<lambda>(ix, c5, c6).
                    case evaluate_selection sim (selection[5 := c5, 6 := c6]) of
                      Some (log, v) \<Rightarrow> if v \<ge> 0 then [(ix, v)] else []
                    | None \<Rightarrow> []) seats)"

text \<open>The seats that achieve the maximum score among the evaluated seats.\<close>

definition tied_seats :: "(int \<times> int) list \<Rightarrow> int list" where
  "tied_seats scored =
     map fst (filter (\<lambda>(ix, v). list_all (\<lambda>(ix', v'). v' \<le> v) scored) scored)"

text \<open>\<open>update_winners\<close> along a list of scored seats, for the proofs.\<close>

fun run_winners :: "(int \<times> int) list \<Rightarrow> int \<times> int list \<Rightarrow> int \<times> int list" where
  "run_winners [] st = st"
| "run_winners ((ix, v) # rest) (max_val, winners) =
     run_winners rest (update_winners v max_val ix winners)"

text \<open>The equations of the two loops over the sample are unfolded by hand.\<close>

declare simulate_unknown.simps [simp del] unknown_seats.simps [simp del]

section \<open>Facts about the remaining deck\<close>

lemma length_mark_filled: "length (mark_filled f cs) = length f"
  unfolding mark_filled_def by (induction cs arbitrary: f) auto

lemma nth_mark_filled:
  "i < length f \<Longrightarrow> mark_filled f cs ! i = (f ! i \<or> (int i \<in> set cs \<and> i < 52))"
  unfolding mark_filled_def
proof (induction cs arbitrary: f)
  case Nil
  then show ?case by simp
next
  case (Cons c cs)
  show ?case
  proof (cases "0 \<le> c \<and> c < 52")
    case True
    then have "nat c < 52" by arith
    from Cons.prems have len: "i < length (f[nat c := True])" by simp
    have "int i = c \<longleftrightarrow> i = nat c" using True by auto
    then show ?thesis
      using Cons.IH[OF len] True Cons.prems by (auto simp: nth_list_update)
  next
    case False
    then show ?thesis using Cons.IH[OF Cons.prems] by auto
  qed
qed

lemma length_foldl_mark_filled: "length (foldl mark_filled f hs) = length f"
  by (induction hs arbitrary: f) (auto simp: length_mark_filled)

lemma nth_foldl_mark_filled:
  "i < length f \<Longrightarrow>
   foldl mark_filled f hs ! i = (f ! i \<or> (int i \<in> \<Union> (set ` set hs) \<and> i < 52))"
proof (induction hs arbitrary: f)
  case Nil
  then show ?case by simp
next
  case (Cons h hs)
  have len: "i < length (mark_filled f h)" using Cons.prems by (simp add: length_mark_filled)
  show ?case using Cons.IH[OF len] nth_mark_filled[OF Cons.prems, of h] by auto
qed

lemma get_remaining_filter:
  "get_remaining comm_hand known_hands =
     filter (\<lambda>c. c \<notin> set comm_hand \<union> \<Union> (set ` set known_hands)) (map int [0..<52])"
proof -
  have "\<And>c. c \<in> set (map int [0..<52]) \<Longrightarrow>
      (\<not> foldl mark_filled (mark_filled (replicate 52 False) comm_hand) known_hands ! nat c)
        = (c \<notin> set comm_hand \<union> \<Union> (set ` set known_hands))"
  proof -
    fix c :: int assume "c \<in> set (map int [0..<52])"
    then obtain i where i: "c = int i" "i < 52" by auto
    have l1: "i < length (mark_filled (replicate 52 False) comm_hand)"
      using i by (simp add: length_mark_filled)
    have l0: "i < length (replicate 52 False)" using i by simp
    show "(\<not> foldl mark_filled (mark_filled (replicate 52 False) comm_hand) known_hands ! nat c)
        = (c \<notin> set comm_hand \<union> \<Union> (set ` set known_hands))"
      using nth_foldl_mark_filled[OF l1, of known_hands] nth_mark_filled[OF l0, of comm_hand] i
      by auto
  qed
  then show ?thesis
    unfolding get_remaining_def Let_def by (intro filter_cong) auto
qed

lemma length_concat_pairs:
  "\<forall>h\<in>set hs. length h = 2 \<Longrightarrow> length (concat hs) = 2 * length hs"
  by (induction hs) auto

text \<open>
  Claim C5. For a board and known hands whose cards lie in \<open>[0,52)\<close> and are pairwise
  distinct, each known hand holding two cards, \<open>get_remaining\<close> returns a list without
  duplicates, of \<open>52 - |board| - 2 * |known_hands|\<close> cards (stated as a sum, so that no
  subtraction of naturals truncates), none of which is on the board or in a known hand.
\<close>

theorem get_remaining_spec:
  assumes rng: "\<forall>c \<in> set comm_hand \<union> \<Union> (set ` set known_hands). 0 \<le> c \<and> c < 52"
    and dis: "distinct (comm_hand @ concat known_hands)"
    and two: "\<forall>h \<in> set known_hands. length h = 2"
  shows "distinct (get_remaining comm_hand known_hands)
       \<and> length (get_remaining comm_hand known_hands) + length comm_hand + 2 * length known_hands = 52
       \<and> set (get_remaining comm_hand known_hands) \<inter> (set comm_hand \<union> \<Union> (set ` set known_hands)) = {}
       \<and> set (get_remaining comm_hand known_hands) \<subseteq> {0..<52}"
proof -
  let ?used = "set comm_hand \<union> \<Union> (set ` set known_hands)"
  let ?deck = "map int [0..<52]"
  let ?r = "get_remaining comm_hand known_hands"
  have r: "?r = filter (\<lambda>c. c \<notin> ?used) ?deck" by (rule get_remaining_filter)
  have ddeck: "distinct ?deck" by (simp add: distinct_map)
  have d: "distinct ?r" unfolding r using ddeck by (rule distinct_filter)
  have used_eq: "?used = set (comm_hand @ concat known_hands)" by auto
  have sub: "?used \<subseteq> set ?deck"
  proof
    fix c assume c: "c \<in> ?used"
    with rng have "0 \<le> c \<and> c < 52" by blast
    then have "c = int (nat c) \<and> nat c < 52" by arith
    then show "c \<in> set ?deck" by (metis atLeast0LessThan image_eqI lessThan_iff set_map set_upt)
  qed
  have cu: "card ?used = length comm_hand + 2 * length known_hands"
    unfolding used_eq using distinct_card[OF dis] length_concat_pairs[OF two] by simp
  have "set ?r = set ?deck - ?used" unfolding r by auto
  then have "card (set ?r) = card (set ?deck) - card ?used"
    using sub by (simp add: card_Diff_subset finite_subset[OF sub])
  moreover have "card (set ?deck) = 52" using distinct_card[OF ddeck] by simp
  moreover have "card (set ?r) = length ?r" using distinct_card[OF d] .
  moreover have "card ?used \<le> card (set ?deck)" using sub by (intro card_mono) auto
  ultimately have len: "length ?r + length comm_hand + 2 * length known_hands = 52"
    using cu by linarith
  have disj: "set ?r \<inter> ?used = {}" unfolding r by auto
  have incl: "set ?r \<subseteq> {0..<52}" unfolding r by auto
  from d len disj incl show ?thesis by blast
qed

text \<open>The cards 0, 11, 12 on the board and the known hand 51, 50: 47 cards remain.\<close>

theorem get_remaining_spec_witness:
  "distinct (get_remaining [0, 11, 12] [[51, 50]])
   \<and> length (get_remaining [0, 11, 12] [[51, 50]]) = 47
   \<and> set (get_remaining [0, 11, 12] [[51, 50]]) \<inter> {0, 11, 12, 51, 50} = {}"
  using get_remaining_spec[of "[0, 11, 12]" "[[51, 50]]"] by auto

lemma get_remaining_lower:
  "52 \<le> length (get_remaining comm_hand known_hands) + length comm_hand + length (concat known_hands)"
proof -
  let ?used = "set (comm_hand @ concat known_hands)"
  let ?deck = "map int [0..<52]"
  let ?r = "get_remaining comm_hand known_hands"
  have r: "?r = filter (\<lambda>c. c \<notin> ?used) ?deck"
    using get_remaining_filter[of comm_hand known_hands] by simp
  have ddeck: "distinct ?deck" by (simp add: distinct_map)
  have d: "distinct ?r" unfolding r using ddeck by (rule distinct_filter)
  have "set ?deck \<subseteq> set ?r \<union> ?used" unfolding r by auto
  then have "card (set ?deck) \<le> card (set ?r \<union> ?used)" by (intro card_mono) auto
  also have "\<dots> \<le> card (set ?r) + card ?used" by (rule card_Un_le)
  also have "\<dots> \<le> length ?r + length (comm_hand @ concat known_hands)"
    using card_length[of "comm_hand @ concat known_hands"] distinct_card[OF d] by linarith
  finally show ?thesis using distinct_card[OF ddeck] by simp
qed

section \<open>Facts about the sampler\<close>

lemma map_sample_log_aux:
  "set log \<subseteq> {Sample_index_out_of_range} \<Longrightarrow>
   set (fst (foldl (\<lambda>(log, s) i.
              if 0 \<le> s ! i \<and> s ! i < int (length remaining)
              then (log, s[i := remaining ! nat (s ! i)])
              else (log @ [Sample_index_out_of_range], s)) (log, sample) is))
     \<subseteq> {Sample_index_out_of_range}"
  by (induction "is" arbitrary: log sample) auto

lemma map_sample_log: "set (fst (map_sample remaining c sample)) \<subseteq> {Sample_index_out_of_range}"
  unfolding map_sample_def by (rule map_sample_log_aux) simp

section \<open>A validated request leaves enough cards\<close>

text \<open>What a request has passed when the simulation is called for it.\<close>

lemma handle_calc_Simulation:
  assumes "Simulation iterations comm_hand known_hands opponents \<in> set (handle_calc compute params)"
  shows "length (getline_all CHR ''|'' [] params) = 4
     \<and> stoi (getline_all CHR ''|'' [] params ! 2) = Inr opponents
     \<and> stoi (getline_all CHR ''|'' [] params ! 3) = Inr iterations
     \<and> 1 \<le> opponents \<and> opponents \<le> 8 \<and> 100 \<le> iterations \<and> iterations \<le> 1000000
     \<and> comm_hand = snd (parseCards (getline_all CHR ''|'' [] params ! 0))
     \<and> known_hands = [snd (parseCards (getline_all CHR ''|'' [] params ! 1))]
     \<and> length comm_hand \<le> 5 \<and> length (concat known_hands) = 2
     \<and> remdups_adj (sort (comm_hand @ concat known_hands)) = sort (comm_hand @ concat known_hands)"
proof -
  obtain e1 c where p0: "parseCards (getline_all CHR ''|'' [] params ! 0) = (e1, c)"
    by (cases "parseCards (getline_all CHR ''|'' [] params ! 0)")
  obtain e2 h where p1: "parseCards (getline_all CHR ''|'' [] params ! 1) = (e2, h)"
    by (cases "parseCards (getline_all CHR ''|'' [] params ! 1)")
  show ?thesis
    using assms p0 p1 unfolding handle_calc_def Let_def
    by (auto split: if_splits sum.splits list.splits)
qed

text \<open>
  Claim C10. When the daemon calls the simulation for a request, that is, when the request
  has passed every validation of \<open>handle_calc\<close>, the number of cards to sample,
  \<open>2 * opponents + 5 - |board|\<close>, is at most the size of the remaining deck, and
  \<open>fill_empty\<close> does not take its branch "not enough cards remaining". The conversion of
  the card texts to numbers is a parameter; all that is asked of it is that it yields one
  number per card.
\<close>

theorem validated_request_has_enough_cards:
  assumes sim: "Simulation iterations comm_hand_str known_hands_str opponents
                  \<in> set (handle_calc compute params)"
      and conv: "\<forall>cards. length (convert_hand cards) = length cards"
  shows "opponents * 2 + 5 - int (length (convert_hand comm_hand_str))
           \<le> int (length (get_remaining (convert_hand comm_hand_str) (map convert_hand known_hands_str)))
       \<and> Not_enough_cards_remaining
           \<notin> set (fst (fill_empty gen iterations (convert_hand comm_hand_str)
                          (map convert_hand known_hands_str) opponents))"
proof -
  let ?comm = "convert_hand comm_hand_str"
  let ?known = "map convert_hand known_hands_str"
  from handle_calc_Simulation[OF sim]
  have opp: "opponents \<le> 8" and k: "length (concat known_hands_str) = 2"
    and one: "\<exists>h. known_hands_str = [h]" by auto
  from one k conv have "length (concat ?known) = 2" by auto
  with get_remaining_lower[of ?comm ?known]
  have "50 \<le> length (get_remaining ?comm ?known) + length ?comm" by simp
  with opp have enough: "opponents * 2 + 5 - int (length ?comm) \<le> int (length (get_remaining ?comm ?known))"
    by linarith
  have "set (fst (fill_empty gen iterations ?comm ?known opponents)) \<subseteq> {Sample_index_out_of_range}"
    using enough map_sample_log unfolding fill_empty_def Let_def by auto
  then show ?thesis using enough by auto
qed

text \<open>The request \<open>CALC Jh,Ts,9c|As,Kh|8|100\<close>: 18 cards to sample, 47 remaining.\<close>

theorem validated_request_has_enough_cards_witness:
  "Simulation 100 [''Jh'', ''Ts'', ''9c''] [[''As'', ''Kh'']] 8
     \<in> set (handle_calc example_compute ''Jh,Ts,9c|As,Kh|8|100'')
   \<and> (8::int) * 2 + 5 - 3
        \<le> int (length (get_remaining (map cardStrToInt [''Jh'', ''Ts'', ''9c''])
                          [map cardStrToInt [''As'', ''Kh'']]))
   \<and> Not_enough_cards_remaining
        \<notin> set (fst (fill_empty example_gen 100 (map cardStrToInt [''Jh'', ''Ts'', ''9c''])
                       [map cardStrToInt [''As'', ''Kh'']] 8))"
proof -
  have s: "Simulation 100 [''Jh'', ''Ts'', ''9c''] [[''As'', ''Kh'']] 8
             \<in> set (handle_calc example_compute ''Jh,Ts,9c|As,Kh|8|100'')"
    by code_simp
  have c: "\<forall>cards. length (map cardStrToInt cards) = length cards" by simp
  show ?thesis
    using s validated_request_has_enough_cards[OF s c, of example_gen] by simp
qed

section \<open>The evaluator sorts first\<close>

text \<open>
  Claim C9. The value and the diagnostics of \<open>evaluate_selection\<close> do not depend on the order
  of the selection: two selections with the same cards, in any order, are sorted to the same
  list before any key is computed.
\<close>

theorem evaluate_selection_permutation:
  assumes "mset selection = mset selection'"
  shows "evaluate_selection sim selection = evaluate_selection sim selection'"
proof -
  have "sort selection = sort selection'"
    using assms by (metis sorted_list_of_multiset_mset)
  then show ?thesis unfolding evaluate_selection_def by simp
qed

text \<open>Seven cards in two orders.\<close>

theorem evaluate_selection_permutation_witness:
  "evaluate_selection example_sim [40, 3, 17, 51, 8, 22, 30]
     = evaluate_selection example_sim [51, 40, 30, 22, 17, 8, 3]"
  using evaluate_selection_permutation[of "[40, 3, 17, 51, 8, 22, 30]"
      "[51, 40, 30, 22, 17, 8, 3]" example_sim]
  by simp

section \<open>Facts about loading a table\<close>

lemma static_cast_int_id: "0 \<le> n \<Longrightarrow> n < 2147483648 \<Longrightarrow> static_cast_int n = n"
  unfolding static_cast_int_def by simp

lemma length_decode_ints: "length (decode_ints bs) = length bs div 4"
  by (induction bs rule: decode_ints.induct) auto

lemma read_vect_small:
  assumes small: "\<forall>bytes. resource = Some bytes \<longrightarrow> length bytes < 2147483648"
  shows "read_vect resource =
     (case resource of
        None \<Rightarrow> ([Cannot_open_lookup_table_file], [])
      | Some bytes \<Rightarrow>
          if length bytes = 0 \<or> length bytes mod 4 \<noteq> 0
          then ([Invalid_file_size (int (length bytes))], [])
          else ([], decode_ints bytes))"
proof (cases resource)
  case None
  then show ?thesis by (simp add: read_vect_def)
next
  case (Some bytes)
  with small have "length bytes < 2147483648" by simp
  then have c: "static_cast_int (int (length bytes)) = int (length bytes)"
    by (intro static_cast_int_id) auto
  have m: "(int (length bytes) mod 4 = 0) = (length bytes mod 4 = 0)"
    by presburger
  show ?thesis using Some c m by (simp add: read_vect_def filesize_def)
qed

text \<open>
  Claim C8, as the source has it. A file of \<open>2^31\<close> zero bytes can be opened and its length
  is a positive multiple of four, yet \<open>read_vect\<close> reports an invalid size and returns the
  empty vector: the length does not fit the \<^verbatim>\<open>int\<close> it is converted to.
\<close>

theorem read_vect_large_file_counterexample:
  "0 < length (replicate 2147483648 (0 :: 8 word))
   \<and> length (replicate 2147483648 (0 :: 8 word)) mod 4 = 0
   \<and> read_vect (Some (replicate 2147483648 0)) = ([Invalid_file_size (- 2147483648)], [])"
  unfolding read_vect_def filesize_def static_cast_int_def by simp

text \<open>
  Claim C8, amended. For a file of fewer than \<open>2^31\<close> bytes: \<open>read_vect\<close> returns the empty
  vector, with a diagnostic, exactly when the file cannot be opened or its length is not a
  positive multiple of four; otherwise it prints nothing and returns the \<open>length / 4\<close>
  integers decoded from the bytes of the file.
\<close>

theorem read_vect_spec:
  assumes small: "\<forall>bytes. resource = Some bytes \<longrightarrow> length bytes < 2147483648"
  shows "if resource = None \<or>
            (\<exists>bytes. resource = Some bytes \<and> (length bytes = 0 \<or> length bytes mod 4 \<noteq> 0))
         then snd (read_vect resource) = [] \<and> fst (read_vect resource) \<noteq> []
         else (\<exists>bytes. resource = Some bytes \<and> read_vect resource = ([], decode_ints bytes)
                 \<and> length (decode_ints bytes) = length bytes div 4 \<and> decode_ints bytes \<noteq> [])"
proof (cases resource)
  case None
  then show ?thesis using read_vect_small[OF small] by simp
next
  case (Some bytes)
  have ne: "decode_ints bytes \<noteq> []" if "0 < length bytes" "length bytes mod 4 = 0"
  proof -
    from that have "0 < length bytes div 4" by presburger
    then show ?thesis using length_decode_ints[of bytes] by auto
  qed
  show ?thesis
    using Some read_vect_small[OF small] length_decode_ints[of bytes] ne by auto
qed

text \<open>A file of eight bytes holding the integers 1 and -1.\<close>

theorem read_vect_spec_witness:
  "read_vect (Some [1, 0, 0, 0, 255, 255, 255, 255]) = ([], [1, - 1])
   \<and> snd (read_vect (Some [1, 0, 0])) = [] \<and> fst (read_vect (Some [1, 0, 0])) \<noteq> []"
  using read_vect_spec[of "Some [1, 0, 0, 0, 255, 255, 255, 255]"]
    read_vect_spec[of "Some [1, 0, 0]"]
  by (simp add: static_cast_int_def)

section \<open>The request loop: the marker, duplicate cards, invalid tokens\<close>

lemma sorted_distinct_adj:
  fixes xs :: "('a::linorder) list"
  shows "sorted xs \<Longrightarrow> distinct_adj xs \<Longrightarrow> distinct xs"
proof (induction xs)
  case Nil
  then show ?case by simp
next
  case (Cons x xs)
  then have d: "distinct xs" by (auto simp: distinct_adj_Cons)
  have "x \<notin> set xs"
  proof
    assume m: "x \<in> set xs"
    then obtain y ys where xs: "xs = y # ys" by (cases xs) auto
    with Cons.prems have "x \<le> y" "x \<noteq> y" "\<forall>z\<in>set (y # ys). y \<le> z"
      by (auto simp: distinct_adj_Cons)
    with m xs show False by fastforce
  qed
  with d show ?case by simp
qed

lemma unique_test: "(remdups_adj (sort xs) \<noteq> sort xs) = (\<not> distinct xs)"
proof -
  have "remdups_adj (sort xs) = sort xs \<longleftrightarrow> distinct (sort xs)"
    using sorted_distinct_adj[of "sort xs"] remdups_adj_distinct[of "sort xs"]
    by (auto simp: distinct_adj_altdef)
  then show ?thesis by simp
qed

lemma handle_calc_no_marker: "Stdout Marker_line \<notin> set (handle_calc compute params)"
  unfolding handle_calc_def Let_def
  by (auto split: if_splits sum.splits prod.splits list.splits)

lemma daemon_loop_True_no_marker: "Stdout Marker_line \<notin> set (daemon_loop compute True input)"
  by (induction input) (auto simp: Let_def handle_calc_no_marker)

lemma daemon_loop_first_calc:
  "is_calc line \<Longrightarrow>
   daemon_loop compute False (line # rest) = Stdout Marker_line # daemon_loop compute True (line # rest)"
  by (auto simp: is_calc_def Let_def)

lemma daemon_loop_other:
  "\<not> is_calc line \<Longrightarrow> \<not> is_exit line \<Longrightarrow>
   daemon_loop compute m (line # rest) = Stdout (Error_line (Unknown_command (rtrim line))) # daemon_loop compute m rest"
  by (auto simp: is_calc_def is_exit_def Let_def)

lemma daemon_loop_exit:
  "is_exit line \<Longrightarrow> daemon_loop compute m (line # rest) = [Stderr Received_EXIT]"
  by (auto simp: is_exit_def Let_def)

lemma marker_count:
  "count_list (daemon_loop compute False input) (Stdout Marker_line) =
     (if \<exists>line \<in> set (takeWhile (\<lambda>l. \<not> is_exit l) input). is_calc line then 1 else 0)"
proof (induction input)
  case Nil
  then show ?case by simp
next
  case (Cons line rest)
  consider (e) "is_exit line" | (c) "\<not> is_exit line" "is_calc line" | (o) "\<not> is_exit line" "\<not> is_calc line"
    by blast
  then show ?case
  proof cases
    case e
    then show ?thesis by (simp add: daemon_loop_exit del: daemon_loop.simps)
  next
    case c
    have "count_list (daemon_loop compute True (line # rest)) (Stdout Marker_line) = 0"
      using daemon_loop_True_no_marker[of compute "line # rest"] by (simp del: daemon_loop.simps)
    then show ?thesis using c by (simp add: daemon_loop_first_calc del: daemon_loop.simps)
  next
    case o
    then show ?thesis using Cons.IH by (simp add: daemon_loop_other del: daemon_loop.simps)
  qed
qed

lemma daemon_loop_prefix:
  "\<forall>l \<in> set pre. \<not> is_exit l \<and> \<not> is_calc l \<Longrightarrow>
   daemon_loop compute m (pre @ rest) =
     map (\<lambda>l. Stdout (Error_line (Unknown_command (rtrim l)))) pre @ daemon_loop compute m rest"
  by (induction pre) (auto simp: daemon_loop_other simp del: daemon_loop.simps)

text \<open>
  Claim C4, amended. Over a whole session the marker is written once if a \<^verbatim>\<open>CALC\<close> command
  is read before \<^verbatim>\<open>EXIT\<close> or the end of the input, and never otherwise. It is written when
  the first \<^verbatim>\<open>CALC\<close> command is read, before that command is split and validated, whether
  the request then succeeds or fails; the lines before it are answered as unknown commands.
  Once the flag is set the loop writes no marker.
\<close>

theorem marker_on_first_calc:
  "count_list (runDaemonMode compute input) (Stdout Marker_line) =
     (if \<exists>line \<in> set (takeWhile (\<lambda>l. \<not> is_exit l) input). is_calc line then 1 else 0)
   \<and> ((\<forall>l \<in> set pre. \<not> is_exit l \<and> \<not> is_calc l) \<and> is_calc line \<longrightarrow>
        runDaemonMode compute (pre @ line # rest) =
          [Stderr Loading_lookup_table, Stderr Lookup_table_loaded, Stdout READY,
           Stderr Daemon_marker_start] @
          map (\<lambda>l. Stdout (Error_line (Unknown_command (rtrim l)))) pre @
          Stdout Marker_line # daemon_loop compute True (line # rest)
        \<and> (\<exists>tail. daemon_loop compute True (line # rest)
                     = handle_calc compute (drop 5 (rtrim line)) @ tail))
   \<and> Stdout Marker_line \<notin> set (daemon_loop compute True input)"
proof -
  have a: "count_list (runDaemonMode compute input) (Stdout Marker_line) =
     (if \<exists>line \<in> set (takeWhile (\<lambda>l. \<not> is_exit l) input). is_calc line then 1 else 0)"
    unfolding runDaemonMode_def using marker_count[of compute input] by simp
  have b: "runDaemonMode compute (pre @ line # rest) =
          [Stderr Loading_lookup_table, Stderr Lookup_table_loaded, Stdout READY,
           Stderr Daemon_marker_start] @
          map (\<lambda>l. Stdout (Error_line (Unknown_command (rtrim l)))) pre @
          Stdout Marker_line # daemon_loop compute True (line # rest)"
    if "\<forall>l \<in> set pre. \<not> is_exit l \<and> \<not> is_calc l" "is_calc line"
    unfolding runDaemonMode_def
    using daemon_loop_prefix[OF that(1), of compute False "line # rest"]
      daemon_loop_first_calc[OF that(2), of compute rest]
    by (simp del: daemon_loop.simps)
  have c: "\<exists>tail. daemon_loop compute True (line # rest)
                     = handle_calc compute (drop 5 (rtrim line)) @ tail" if "is_calc line"
    using that by (auto simp: is_calc_def Let_def)
  show ?thesis using a b c daemon_loop_True_no_marker[of compute input] by blast
qed

text \<open>A session of an unknown command, a malformed request and a good request.\<close>

theorem marker_on_first_calc_witness:
  "runDaemonMode example_compute [''foo'', ''CALC x'', ''CALC |As,Kh|2|10000''] =
     [Stderr Loading_lookup_table, Stderr Lookup_table_loaded, Stdout READY,
      Stderr Daemon_marker_start, Stdout (Error_line (Unknown_command ''foo'')),
      Stdout Marker_line, Stdout (Error_line Invalid_command_format),
      Simulation 10000 [] [[''As'', ''Kh'']] 2, Stdout (Result_line 5000 3 10000)]
   \<and> count_list (runDaemonMode example_compute [''foo'', ''CALC x'', ''CALC |As,Kh|2|10000''])
        (Stdout Marker_line) = 1"
proof -
  have h: "(\<forall>l \<in> set [''foo'']. \<not> is_exit l \<and> \<not> is_calc l) \<and> is_calc ''CALC x''"
    by code_simp
  have t: "daemon_loop example_compute True [''CALC x'', ''CALC |As,Kh|2|10000''] =
     [Stdout (Error_line Invalid_command_format),
      Simulation 10000 [] [[''As'', ''Kh'']] 2, Stdout (Result_line 5000 3 10000)]"
    by code_simp
  have e: "\<exists>line \<in> set (takeWhile (\<lambda>l. \<not> is_exit l) [''foo'', ''CALC x'', ''CALC |As,Kh|2|10000'']). is_calc line"
    by code_simp
  have u: "rtrim ''foo'' = ''foo''" by code_simp
  from marker_on_first_calc[of example_compute "[''foo'', ''CALC x'', ''CALC |As,Kh|2|10000'']"
      "[''foo'']" "''CALC x''" "[''CALC |As,Kh|2|10000'']"] h t e u
  show ?thesis by (simp del: daemon_loop.simps)
qed

text \<open>
  Claim C4, as the source has it. The first request of this session fails and the second
  succeeds; the marker is written at the first, before any request has completed successfully.
\<close>

theorem marker_before_success_counterexample:
  "runDaemonMode example_compute [''CALC x'', ''CALC |As,Kh|2|10000''] =
     [Stderr Loading_lookup_table, Stderr Lookup_table_loaded, Stdout READY,
      Stderr Daemon_marker_start,
      Stdout Marker_line, Stdout (Error_line Invalid_command_format),
      Simulation 10000 [] [[''As'', ''Kh'']] 2, Stdout (Result_line 5000 3 10000)]"
  by code_simp

lemma parseCards_loop_tokens:
  "parseCards_loop toks cards =
     (let ts = filter (\<lambda>token. token \<noteq> []) (map (filter (\<lambda>ch. ch \<noteq> CHR '' '')) toks) in
      if list_all isValidCard ts then ([], cards @ ts)
      else ([Invalid_card (hd (filter (\<lambda>token. \<not> isValidCard token) ts))], []))"
  by (induction toks arbitrary: cards) (auto simp: Let_def)

lemma parseCards_tokens:
  "parseCards field =
     (if list_all isValidCard (card_tokens field) then ([], card_tokens field)
      else ([Invalid_card (hd (filter (\<lambda>token. \<not> isValidCard token) (card_tokens field)))], []))"
  unfolding parseCards_def card_tokens_def using parseCards_loop_tokens[of "getline_all CHR '','' [] field" "[]"]
  by (cases "field = []") (simp_all add: Let_def)

lemma parsed_two:
  "length (snd (parseCards field)) = 2 \<Longrightarrow> snd (parseCards field) = card_tokens field"
  by (simp add: parseCards_tokens split: if_splits)


text \<open>
  The validations of a \<^verbatim>\<open>CALC\<close> request of four fields, in the order of the source: each
  writes its error response and nothing else; the call of the simulation comes after all
  of them.
\<close>

lemma handle_calc_validations:
  assumes parts: "getline_all CHR ''|'' [] params = [board_str, hole_str, opp_str, it_str]"
  shows "handle_calc compute params =
     (case stoi opp_str of
        Inl e \<Rightarrow> [Stdout (Error_line (Exception_what e))]
      | Inr opponents \<Rightarrow>
      (case stoi it_str of
        Inl e \<Rightarrow> [Stdout (Error_line (Exception_what e))]
      | Inr iterations \<Rightarrow>
        if opponents < 1 \<or> 8 < opponents then [Stdout (Error_line Opponents_must_be_1_8)]
        else if iterations < 100 \<or> 1000000 < iterations
        then [Stdout (Error_line Iterations_must_be_100_1000000)]
        else if 5 < length (snd (parseCards board_str))
        then map Stderr (fst (parseCards board_str)) @
             [Stdout (Error_line Board_cannot_have_more_than_5_cards)]
        else if length (snd (parseCards hole_str)) \<noteq> 2
        then map Stderr (fst (parseCards board_str) @ fst (parseCards hole_str)) @
             [Stdout (Error_line Need_exactly_2_hole_cards)]
        else if \<not> distinct (snd (parseCards board_str) @ snd (parseCards hole_str))
        then map Stderr (fst (parseCards board_str) @ fst (parseCards hole_str)) @
             [Stdout (Error_line Duplicate_cards_detected)]
        else map Stderr (fst (parseCards board_str) @ fst (parseCards hole_str)) @
             [Simulation iterations (snd (parseCards board_str)) [snd (parseCards hole_str)] opponents] @
             (case compute iterations (snd (parseCards board_str)) [snd (parseCards hole_str)] opponents of
                (wins # ties # row) # rows \<Rightarrow> [Stdout (Result_line wins ties iterations)]
              | _ \<Rightarrow> [Undefined_behaviour])))"
proof -
  obtain e1 c where p0: "parseCards board_str = (e1, c)" by (cases "parseCards board_str")
  obtain e2 h where p1: "parseCards hole_str = (e2, h)" by (cases "parseCards hole_str")
  show ?thesis
    unfolding handle_calc_def Let_def parts using unique_test[of "c @ h"]
    by (simp add: p0 p1 split: sum.splits)
qed

lemma daemon_loop_calc:
  assumes cmd: "rtrim line = ''CALC '' @ params"
    and hc: "handle_calc compute params = events" and nub: "Undefined_behaviour \<notin> set events"
  shows "daemon_loop compute marker_sent (line # rest) =
           (if marker_sent then [] else [Stdout Marker_line]) @ events @ daemon_loop compute True rest"
proof -
  have ne: "rtrim line \<noteq> ''EXIT''" using cmd by simp
  have t5: "take 5 (rtrim line) = ''CALC ''" "drop 5 (rtrim line) = params" using cmd by simp_all
  show ?thesis using ne t5 nub hc by (auto simp: Let_def)
qed

lemma handle_calc_field_count:
  "length (getline_all CHR ''|'' [] params) \<noteq> 4 \<Longrightarrow>
   handle_calc compute params = [Stdout (Error_line Invalid_command_format)]"
  by (simp add: handle_calc_def)

text \<open>
  Claim C6, amended. A \<^verbatim>\<open>CALC\<close> request with a board field and a hole field in which a
  card is named twice across the two fields, the cards of a field being the texts between
  its commas with the spaces removed. The daemon answers with exactly one error response,
  after the marker if this is the first request and after what \<open>parseCards\<close> printed on
  \<^verbatim>\<open>cerr\<close> for the hole field; it calls no simulation and goes on with the next line.
  The error is that of the first validation that fails, in the order of the source: the
  number of fields is not four; the exception of \<^verbatim>\<open>stoi\<close> for the opponents field, then
  for the iterations field; the opponents outside \<open>1..8\<close>; the iterations outside
  \<open>100..1000000\<close>; more than five cards in the board field; not two cards read from the
  hole field; and the duplicate-card error when all of these pass. Nothing is said of a
  request that reaches the board field with an invalid token in it: how \<open>parseCards\<close>
  treats that field is the subject of claim C2.
\<close>

theorem duplicate_cards_rejected:
  assumes cmd: "rtrim line = ''CALC '' @ params"
    and parts: "getline_all CHR ''|'' [] params = board_str # hole_str # others"
    and dup: "\<not> distinct (card_tokens board_str @ card_tokens hole_str)"
  shows "let hole = snd (parseCards hole_str); err = fst (parseCards hole_str);
             answer = (\<lambda>err msg.
                daemon_loop compute marker_sent (line # rest) =
                  (if marker_sent then [] else [Stdout Marker_line]) @
                  map Stderr err @ [Stdout (Error_line msg)] @ daemon_loop compute True rest)
         in if length others \<noteq> 2 then answer [] Invalid_command_format
            else case stoi (others ! 0) of
              Inl e \<Rightarrow> answer [] (Exception_what e)
            | Inr opponents \<Rightarrow>
            (case stoi (others ! 1) of
              Inl e \<Rightarrow> answer [] (Exception_what e)
            | Inr iterations \<Rightarrow>
              if opponents < 1 \<or> 8 < opponents then answer [] Opponents_must_be_1_8
              else if iterations < 100 \<or> 1000000 < iterations
              then answer [] Iterations_must_be_100_1000000
              else list_all isValidCard (card_tokens board_str) \<longrightarrow>
                (if 5 < length (card_tokens board_str)
                 then answer [] Board_cannot_have_more_than_5_cards
                 else if length hole \<noteq> 2 then answer err Need_exactly_2_hole_cards
                 else answer [] Duplicate_cards_detected))"
proof (cases "length others \<noteq> 2")
  case True
  then have "length (getline_all CHR ''|'' [] params) \<noteq> 4" unfolding parts by simp
  then have h: "handle_calc compute params = [Stdout (Error_line Invalid_command_format)]"
    by (rule handle_calc_field_count)
  have "Undefined_behaviour \<notin> set [Stdout (Error_line Invalid_command_format)]" by simp
  from daemon_loop_calc[OF cmd h this, of marker_sent rest] True show ?thesis
    by (simp add: Let_def del: daemon_loop.simps)
next
  case two: False
  then obtain opp_str it_str where others: "others = [opp_str, it_str]"
    by (cases others; cases "tl others"; cases "tl (tl others)") auto
  let ?board = "snd (parseCards board_str)" and ?hole = "snd (parseCards hole_str)"
  let ?err1 = "fst (parseCards board_str)" and ?err2 = "fst (parseCards hole_str)"
  note hc = handle_calc_validations[OF parts[unfolded others], of compute]
  have ans: "daemon_loop compute marker_sent (line # rest) =
                  (if marker_sent then [] else [Stdout Marker_line]) @
                  map Stderr err @ [Stdout (Error_line msg)] @ daemon_loop compute True rest"
    if h: "handle_calc compute params = map Stderr err @ [Stdout (Error_line msg)]" for err msg
  proof -
    have "Undefined_behaviour \<notin> set (map Stderr err @ [Stdout (Error_line msg)])" by auto
    from daemon_loop_calc[OF cmd h this, of marker_sent rest] show ?thesis
      by (simp del: daemon_loop.simps)
  qed
  show ?thesis
  proof (cases "stoi opp_str")
    case (Inl e)
    then show ?thesis using others ans[of "[]" "Exception_what e"] hc
      by (simp add: Let_def del: daemon_loop.simps)
  next
    case opp: (Inr opponents)
    show ?thesis
    proof (cases "stoi it_str")
      case (Inl e)
      then show ?thesis using others opp ans[of "[]" "Exception_what e"] hc
        by (simp add: Let_def del: daemon_loop.simps)
    next
      case its: (Inr iterations)
      consider (a) "opponents < 1 \<or> 8 < opponents"
        | (b) "\<not> (opponents < 1 \<or> 8 < opponents)" "iterations < 100 \<or> 1000000 < iterations"
        | (c) "\<not> (opponents < 1 \<or> 8 < opponents)" "\<not> (iterations < 100 \<or> 1000000 < iterations)"
              "\<not> list_all isValidCard (card_tokens board_str)"
        | (d) "\<not> (opponents < 1 \<or> 8 < opponents)" "\<not> (iterations < 100 \<or> 1000000 < iterations)"
              "list_all isValidCard (card_tokens board_str)"
        by blast
      then show ?thesis
      proof cases
        case a
        then show ?thesis using others opp its ans[of "[]" Opponents_must_be_1_8] hc
          by (simp add: Let_def del: daemon_loop.simps)
      next
        case b
        then show ?thesis using others opp its ans[of "[]" Iterations_must_be_100_1000000] hc
          by (simp add: Let_def del: daemon_loop.simps)
      next
        case c
        then show ?thesis using others opp its by (simp add: Let_def del: daemon_loop.simps)
      next
        case d
        have board: "?board = card_tokens board_str" and e1: "?err1 = []"
          using d(3) by (simp_all add: parseCards_tokens)
        consider (long) "5 < length (card_tokens board_str)"
          | (hole) "\<not> 5 < length (card_tokens board_str)" "length ?hole \<noteq> 2"
          | (dup) "\<not> 5 < length (card_tokens board_str)" "length ?hole = 2"
          by blast
        then show ?thesis
        proof cases
          case long
          have "handle_calc compute params =
                  map Stderr [] @ [Stdout (Error_line Board_cannot_have_more_than_5_cards)]"
            using hc opp its d long board e1 by simp
          from ans[OF this] show ?thesis using others opp its d long
            by (simp add: Let_def del: daemon_loop.simps)
        next
          case hole
          have "handle_calc compute params =
                  map Stderr ?err2 @ [Stdout (Error_line Need_exactly_2_hole_cards)]"
            using hc opp its d hole board e1 by simp
          from ans[OF this] show ?thesis using others opp its d hole
            by (simp add: Let_def del: daemon_loop.simps)
        next
          case dup
          have h: "?hole = card_tokens hole_str" using dup(2) by (rule parsed_two)
          have e2: "?err2 = []" using dup(2) by (simp add: parseCards_tokens split: if_splits)
          have "\<not> distinct (?board @ ?hole)" using assms(3) board h by simp
          then have "handle_calc compute params =
                  map Stderr [] @ [Stdout (Error_line Duplicate_cards_detected)]"
            using hc opp its d dup board e1 e2 by simp
          from ans[OF this] show ?thesis using others opp its d dup
            by (simp add: Let_def del: daemon_loop.simps)
        qed
      qed
    qed
  qed
qed

text \<open>Board \<open>As\<close>, hole \<open>As,Kh\<close>, followed by a good request, which is served.\<close>

theorem duplicate_cards_rejected_witness:
  "daemon_loop example_compute True [''CALC As|As,Kh|1|100'', ''CALC |As,Kh|1|100''] =
     [Stdout (Error_line Duplicate_cards_detected), Simulation 100 [] [[''As'', ''Kh'']] 1,
      Stdout (Result_line 50 3 100)]"
proof -
  have p: "getline_all CHR ''|'' [] ''As|As,Kh|1|100'' = [''As'', ''As,Kh'', ''1'', ''100'']"
    by code_simp
  have s: "stoi ''1'' = Inr 1" "stoi ''100'' = Inr 100" by code_simp+
  have b: "parseCards ''As'' = ([], [''As''])" "parseCards ''As,Kh'' = ([], [''As'', ''Kh''])"
    by code_simp+
  have t: "card_tokens ''As'' = [''As'']" "card_tokens ''As,Kh'' = [''As'', ''Kh'']" by code_simp+
  have v: "isValidCard ''As''" by code_simp
  have d: "\<not> distinct (card_tokens ''As'' @ card_tokens ''As,Kh'')" unfolding t by simp
  have r: "rtrim ''CALC As|As,Kh|1|100'' = ''CALC '' @ ''As|As,Kh|1|100''" by code_simp
  have n: "daemon_loop example_compute True [''CALC |As,Kh|1|100''] =
     [Simulation 100 [] [[''As'', ''Kh'']] 1, Stdout (Result_line 50 3 100)]" by code_simp
  from duplicate_cards_rejected[OF r p d, of example_compute True "[''CALC |As,Kh|1|100'']"]
  have "daemon_loop example_compute True [''CALC As|As,Kh|1|100'', ''CALC |As,Kh|1|100''] =
          Stdout (Error_line Duplicate_cards_detected) #
          daemon_loop example_compute True [''CALC |As,Kh|1|100'']"
    by (simp add: Let_def s b t v del: daemon_loop.simps)
  then show ?thesis by (simp add: n del: daemon_loop.simps)
qed

text \<open>
  Claim C6, as the source has it. The same duplicate with nine opponents: the count is
  validated before the cards are parsed, and the response is the opponents error, not the
  duplicate-card error. And the board \<open>As,Xx\<close> with the hole \<open>As,Kh\<close>, where \<open>As\<close> is
  named twice: no error response is written and the simulation is called.
\<close>

theorem duplicate_cards_other_error_counterexample:
  "daemon_loop example_compute True [''CALC As|As,Kh|9|100''] =
     [Stdout (Error_line Opponents_must_be_1_8)]
   \<and> daemon_loop example_compute True [''CALC As,Xx|As,Kh|1|100''] =
     [Stderr (Invalid_card ''Xx''), Simulation 100 [] [[''As'', ''Kh'']] 1,
      Stdout (Result_line 50 3 100)]"
  by code_simp

text \<open>
  Claim C2 at the request \<open>CALC Xx|As,Kh|1|100\<close>. \<open>parseCards\<close> reports the invalid token
  \<open>Xx\<close> on \<^verbatim>\<open>cerr\<close> and returns the empty vector, which the daemon takes for the empty
  board: the simulation runs and a success response is written.
\<close>

theorem invalid_board_token_is_simulated:
  "runDaemonMode example_compute [''CALC Xx|As,Kh|1|100''] =
     [Stderr Loading_lookup_table, Stderr Lookup_table_loaded, Stdout READY,
      Stderr Daemon_marker_start, Stdout Marker_line, Stderr (Invalid_card ''Xx''),
      Simulation 100 [] [[''As'', ''Kh'']] 1, Stdout (Result_line 50 3 100)]"
  by code_simp

section \<open>Arithmetic of a 32-bit \<^verbatim>\<open>int\<close>\<close>

lemma static_cast_int_small:
  "- 2147483648 \<le> n \<Longrightarrow> n < 2147483648 \<Longrightarrow> static_cast_int n = n"
  unfolding static_cast_int_def by simp

lemma static_cast_int_range:
  "- 2147483648 \<le> static_cast_int n" "static_cast_int n < 2147483648"
  unfolding static_cast_int_def by simp_all

lemma static_cast_int_cong:
  "a mod 4294967296 = b mod 4294967296 \<Longrightarrow> static_cast_int a = static_cast_int b"
  unfolding static_cast_int_def by (metis mod_add_left_eq)

lemma static_cast_int_mod: "static_cast_int a mod 4294967296 = a mod 4294967296"
  unfolding static_cast_int_def
  by (smt (verit) mod_add_eq mod_diff_left_eq mod_mod_trivial minus_mod_self2 mod_add_self2)

lemma static_cast_int_add_left: "static_cast_int (static_cast_int a + b) = static_cast_int (a + b)"
  by (rule static_cast_int_cong) (metis mod_add_left_eq static_cast_int_mod)

lemma static_cast_int_add_right: "static_cast_int (a + static_cast_int b) = static_cast_int (a + b)"
  by (rule static_cast_int_cong) (metis mod_add_right_eq static_cast_int_mod)

lemma static_cast_int_mult_left: "static_cast_int (static_cast_int a * b) = static_cast_int (a * b)"
  by (rule static_cast_int_cong) (metis mod_mult_left_eq static_cast_int_mod)

lemma static_cast_int_idem: "static_cast_int (static_cast_int a) = static_cast_int a"
  using static_cast_int_range[of a] by (intro static_cast_int_small) auto

lemma static_cast_int_size: "static_cast_int (int n) \<le> int n"
proof -
  have "(int n + 2147483648) mod 4294967296 \<le> int n + 2147483648"
    by (rule zmod_le_nonneg_dividend) simp
  then show ?thesis unfolding static_cast_int_def by simp
qed

lemma inside_at: "inside xs i \<Longrightarrow> at xs i = Some (xs ! nat i)"
  using static_cast_int_size[of "length xs"] by (simp add: inside_def at_def)

lemma inside_nth_mem: "inside xs i \<Longrightarrow> xs ! nat i \<in> set xs"
proof -
  assume "inside xs i"
  then have "nat i < length xs" using static_cast_int_size[of "length xs"]
    unfolding inside_def by linarith
  then show ?thesis by (rule nth_mem)
qed

section \<open>The evaluator reads inside its tables\<close>

lemma base_hand:
  "7 \<le> length sel \<Longrightarrow>
   those (map (\<lambda>i. at sel (int i + 2)) [0..<5]) = Some [sel ! 2, sel ! 3, sel ! 4, sel ! 5, sel ! 6]"
proof -
  assume l: "7 \<le> length sel"
  have u: "[0..<5] = [0, 1, 2, 3, 4::nat]" by (simp add: upt_rec)
  have n: "nat 3 = 3" "nat 4 = 4" "nat 5 = 5" "nat 6 = 6" by simp_all
  show ?thesis unfolding u using l by (simp add: at_def n)
qed

text \<open>
  What \<open>to_ckey\<close> returns: the first index outside the contribution table is reported, with
  the key 0; with every index inside, the key is the sum of the entries.
\<close>

lemma to_ckey_loop_char:
  "static_cast_int key0 = key0 \<Longrightarrow>
   to_ckey_loop ct i hand key0 =
     (if filter (\<lambda>idx. \<not> inside ct idx) (hand_indices i hand) = []
      then Some ([], static_cast_int (key0 + sum_list (map (\<lambda>idx. ct ! nat idx) (hand_indices i hand))))
      else Some ([Index_out_of_bounds_in_to_ckey
                    (hd (filter (\<lambda>idx. \<not> inside ct idx) (hand_indices i hand)))], 0))"
proof (induction hand arbitrary: i key0)
  case Nil
  then show ?case by simp
next
  case (Cons h hand)
  let ?idx = "static_cast_int ((i + 1) * 53 + h)"
  show ?case
  proof (cases "inside ct ?idx")
    case True
    have k: "static_cast_int (static_cast_int (key0 + ct ! nat ?idx)) = static_cast_int (key0 + ct ! nat ?idx)"
      by (rule static_cast_int_idem)
    have s: "static_cast_int (static_cast_int (key0 + c) + x) = static_cast_int (key0 + (c + x))"
      for c x by (simp add: static_cast_int_add_left add.assoc)
    show ?thesis using True Cons.IH[OF k, of "i + 1"]
      by (simp add: inside_at Let_def s)
  next
    case False
    then show ?thesis by (simp add: Let_def)
  qed
qed

lemma to_ckey_char:
  "to_ckey sim hand =
     (if filter (\<lambda>idx. \<not> inside (c_table sim) idx) (hand_indices 0 hand) = []
      then Some ([], key_sum (c_table sim) 0 hand)
      else Some ([Index_out_of_bounds_in_to_ckey
                    (hd (filter (\<lambda>idx. \<not> inside (c_table sim) idx) (hand_indices 0 hand)))], 0))"
proof -
  have "static_cast_int 0 = 0" by (simp add: static_cast_int_def)
  from to_ckey_loop_char[OF this, of "c_table sim" 0 hand]
  show ?thesis by (simp add: to_ckey_def key_sum_def)
qed

lemma eval_step_total:
  assumes nonneg: "\<forall>r \<in> set (replace sim). 0 \<le> r"
    and len: "length hand = 5" and j: "0 \<le> j" and m: "table_entry sim m"
  shows "\<exists>hand' key' m'. eval_step sim selection (hand, key, m) j = Some (hand', key', m')
           \<and> length hand' = 5 \<and> table_entry sim m'"
proof (cases "j + 1 \<ge> static_cast_int (int (length (replace sim)))")
  case True
  then show ?thesis using len m by (simp add: eval_step_def)
next
  case False
  then have jl: "j + 1 < int (length (replace sim))"
    using static_cast_int_size[of "length (replace sim)"] by linarith
  then have j0: "at (replace sim) j = Some (replace sim ! nat j)"
    and j1: "at (replace sim) (j + 1) = Some (replace sim ! nat (j + 1))"
    using j by (simp_all add: at_def)
  let ?rj = "replace sim ! nat j" and ?rj1 = "replace sim ! nat (j + 1)"
  from jl j nonneg have r0: "0 \<le> ?rj" and r1: "0 \<le> ?rj1" by auto
  show ?thesis
  proof (cases "?rj \<ge> 5 \<or> ?rj1 \<ge> static_cast_int (int (length selection))")
    case True
    then show ?thesis using False j0 j1 len m by (auto simp: eval_step_def)
  next
    case ok: False
    then have "?rj1 < int (length selection)"
      using static_cast_int_size[of "length selection"] by linarith
    with ok have s: "at selection ?rj1 = Some (selection ! nat ?rj1)"
      and h: "at hand ?rj = Some (hand ! nat ?rj)"
      using r0 r1 len by (simp_all add: at_def)
    have tm: "table_entry sim (max m (table sim ! nat k))" if "inside (table sim) k" for k
      using inside_nth_mem[OF that] m unfolding table_entry_def max_def by simp
    show ?thesis
      using False ok j0 j1 s h len m tm
      by (auto simp: eval_step_def Let_def inside_at)
  qed
qed

lemma eval_loop_total:
  assumes nonneg: "\<forall>r \<in> set (replace sim). 0 \<le> r"
  shows "length hand = 5 \<Longrightarrow> \<forall>j \<in> set js. 0 \<le> j \<Longrightarrow> table_entry sim m \<Longrightarrow>
     \<exists>hand' key' m'. eval_loop sim selection js (hand, key, m) = Some (hand', key', m')
           \<and> length hand' = 5 \<and> table_entry sim m'"
proof (induction js arbitrary: hand key m)
  case Nil
  then show ?case by simp
next
  case (Cons j js)
  from eval_step_total[OF nonneg Cons.prems(1) _ Cons.prems(3), of j selection key] Cons.prems(2)
  obtain hand' key' m' where st: "eval_step sim selection (hand, key, m) j = Some (hand', key', m')"
    and l: "length hand' = 5" and t: "table_entry sim m'" by auto
  from Cons.IH[OF l _ t, of key'] Cons.prems(2) show ?case using st by simp
qed

lemma loop_indices_nonneg: "\<forall>j \<in> set loop_indices. 0 \<le> j"
  by (auto simp: loop_indices_def)

lemma take_drop_hand:
  "7 \<le> length sel \<Longrightarrow> take 5 (drop 2 sel) = [sel ! 2, sel ! 3, sel ! 4, sel ! 5, sel ! 6]"
proof -
  assume l: "7 \<le> length sel"
  have "length (take 5 (drop 2 sel)) = 5" using l by simp
  moreover have "\<forall>i<5. take 5 (drop 2 sel) ! i = [sel ! 2, sel ! 3, sel ! 4, sel ! 5, sel ! 6] ! i"
    using l by (auto simp: less_Suc_eq numeral_eq_Suc)
  ultimately show ?thesis by (intro nth_equalityI) auto
qed

text \<open>
  The evaluator past the size test: the diagnostics of \<open>to_ckey\<close>, then either the report of
  the base key and the value 0, or the substitution loop, which reports nothing and leaves
  an entry of the score table.
\<close>

lemma evaluate_selection_cases:
  assumes nonneg: "\<forall>r \<in> set (replace sim). 0 \<le> r" and l7: "\<not> length selection < 7"
    and tk: "to_ckey sim (take 5 (drop 2 (sort selection))) = Some (tlog, key)"
  shows "\<exists>v. evaluate_selection sim selection = Some (if inside (table sim) key then tlog else tlog @ [Key_out_of_bounds_in_evaluate_selection key], v)
           \<and> (if inside (table sim) key then table_entry sim v else v = 0)"
proof -
  let ?sel = "sort selection"
  let ?hand = "take 5 (drop 2 ?sel)"
  from l7 have l7': "7 \<le> length ?sel" by simp
  have bh: "those (map (\<lambda>i. at ?sel (int i + 2)) [0..<5]) = Some ?hand"
    using base_hand[OF l7'] take_drop_hand[OF l7'] by simp
  have lh: "length ?hand = 5" using l7' by simp
  show ?thesis
  proof (cases "inside (table sim) key")
    case False
    then have "key < 0 \<or> key \<ge> static_cast_int (int (length (table sim)))"
      by (auto simp: inside_def)
    then show ?thesis using False l7 bh tk by (simp add: evaluate_selection_def Let_def)
  next
    case True
    then have inr: "\<not> (key < 0 \<or> key \<ge> static_cast_int (int (length (table sim))))"
      by (auto simp: inside_def)
    have a: "at (table sim) key = Some (table sim ! nat key)" using True by (rule inside_at)
    have te: "table_entry sim (table sim ! nat key)" unfolding table_entry_def
      using True by (rule inside_nth_mem)
    from eval_loop_total[OF nonneg lh loop_indices_nonneg te, of ?sel key]
    obtain hand' key' m' where
      el: "eval_loop sim ?sel loop_indices (?hand, key, table sim ! nat key) = Some (hand', key', m')"
      and tm: "table_entry sim m'" by blast
    have "evaluate_selection sim selection = Some (tlog, m')"
      using l7 bh tk a el inr by (simp add: evaluate_selection_def Let_def)
    then show ?thesis using True tm by simp
  qed
qed

text \<open>With a substitution table without negative entries the evaluator always returns.\<close>

lemma evaluate_selection_total:
  assumes nonneg: "\<forall>r \<in> set (replace sim). 0 \<le> r"
  shows "\<exists>log v. evaluate_selection sim selection = Some (log, v)"
proof (cases "length selection < 7")
  case True
  then show ?thesis by (simp add: evaluate_selection_def)
next
  case False
  obtain tlog key where tk: "to_ckey sim (take 5 (drop 2 (sort selection))) = Some (tlog, key)"
    using to_ckey_char[of sim "take 5 (drop 2 (sort selection))"] by (auto split: if_splits)
  from evaluate_selection_cases[OF nonneg False tk] show ?thesis by blast
qed

text \<open>
  Claim C7, amended. For tables of any size, empty ones included, and a substitution table
  without negative entries, \<open>evaluate_selection\<close> reads no vector out of range (its result
  is never \<open>None\<close>), all indices and keys being computed in 32-bit \<^verbatim>\<open>int\<close> arithmetic. A
  selection of fewer than seven cards is reported and the value is \<open>-1\<close>. In \<open>to_ckey\<close> the
  first index outside the contribution table is reported, with its value, and \<open>to_ckey\<close>
  returns the key 0; with every index inside, nothing is reported and the key is the sum of
  the entries. A key of the base hand outside the score table is reported, with its value,
  and the value returned is 0. In the substitution loop an index or key out of range is
  skipped and nothing is reported: the diagnostics are those of \<open>to_ckey\<close> and of the test
  of the base key, and when the base key is inside the score table the value is an entry of
  that table.
\<close>

theorem evaluate_selection_bounds_checked:
  assumes nonneg: "\<forall>r \<in> set (replace sim). 0 \<le> r"
  shows "\<exists>log v. evaluate_selection sim selection = Some (log, v) \<and>
     (if length selection < 7 then log = [Selection_size_less_than_7] \<and> v = - 1
      else \<exists>tlog key. to_ckey sim (take 5 (drop 2 (sort selection))) = Some (tlog, key) \<and>
             (case filter (\<lambda>idx. \<not> inside (c_table sim) idx)
                     (hand_indices 0 (take 5 (drop 2 (sort selection)))) of
                [] \<Rightarrow> tlog = [] \<and> key = key_sum (c_table sim) 0 (take 5 (drop 2 (sort selection)))
              | idx # rest \<Rightarrow> tlog = [Index_out_of_bounds_in_to_ckey idx] \<and> key = 0) \<and>
             (if inside (table sim) key
              then log = tlog \<and> table_entry sim v
              else log = tlog @ [Key_out_of_bounds_in_evaluate_selection key] \<and> v = 0))"
proof (cases "length selection < 7")
  case True
  then show ?thesis by (simp add: evaluate_selection_def)
next
  case False
  let ?hand = "take 5 (drop 2 (sort selection))"
  let ?bad = "filter (\<lambda>idx. \<not> inside (c_table sim) idx) (hand_indices 0 ?hand)"
  obtain tlog key where tk: "to_ckey sim ?hand = Some (tlog, key)"
    and tl: "case ?bad of [] \<Rightarrow> tlog = [] \<and> key = key_sum (c_table sim) 0 ?hand
             | idx # rest \<Rightarrow> tlog = [Index_out_of_bounds_in_to_ckey idx] \<and> key = 0"
    using to_ckey_char[of sim ?hand] by (cases ?bad) auto
  from evaluate_selection_cases[OF nonneg False tk]
  obtain v where ev: "evaluate_selection sim selection =
        Some (if inside (table sim) key then tlog
              else tlog @ [Key_out_of_bounds_in_evaluate_selection key], v)"
    and vv: "if inside (table sim) key then table_entry sim v else v = 0" by blast
  show ?thesis
  proof (intro exI conjI)
    show "evaluate_selection sim selection =
        Some (if inside (table sim) key then tlog
              else tlog @ [Key_out_of_bounds_in_evaluate_selection key], v)" by (rule ev)
    show "if length selection < 7
          then (if inside (table sim) key then tlog
                else tlog @ [Key_out_of_bounds_in_evaluate_selection key]) = [Selection_size_less_than_7] \<and> v = - 1
          else \<exists>tlog' key'. to_ckey sim ?hand = Some (tlog', key') \<and>
             (case ?bad of
                [] \<Rightarrow> tlog' = [] \<and> key' = key_sum (c_table sim) 0 ?hand
              | idx # rest \<Rightarrow> tlog' = [Index_out_of_bounds_in_to_ckey idx] \<and> key' = 0) \<and>
             (if inside (table sim) key'
              then (if inside (table sim) key then tlog
                    else tlog @ [Key_out_of_bounds_in_evaluate_selection key]) = tlog' \<and> table_entry sim v
              else (if inside (table sim) key then tlog
                    else tlog @ [Key_out_of_bounds_in_evaluate_selection key])
                     = tlog' @ [Key_out_of_bounds_in_evaluate_selection key'] \<and> v = 0)"
      using False tk tl vv by (auto intro!: exI[of _ tlog] exI[of _ key])
  qed
qed

text \<open>Empty tables: both conditions are reported and the value is 0.\<close>

theorem evaluate_selection_bounds_checked_witness:
  "evaluate_selection empty_sim [0, 1, 2, 3, 4, 5, 6] =
     Some ([Index_out_of_bounds_in_to_ckey 55, Key_out_of_bounds_in_evaluate_selection 0], 0)"
proof -
  have n: "\<forall>r \<in> set (replace empty_sim). 0 \<le> r"
    by (simp add: empty_sim_def example_sim_def)
  have t: "table empty_sim = []" "c_table empty_sim = []" by (simp_all add: empty_sim_def)
  have s: "sort [0, 1, 2, 3, 4, 5, 6::int] = [0, 1, 2, 3, 4, 5, 6]" by (simp add: sorted_sort_id)
  have i: "\<not> inside ([]::int list) k" for k by (simp add: inside_def static_cast_int_def)
  from evaluate_selection_bounds_checked[OF n, of "[0, 1, 2, 3, 4, 5, 6]"]
  show ?thesis unfolding s t by (auto simp: i static_cast_int_def)
qed

lemma at_map_upt:
  "at (map f [0..<n]) i = (if 0 \<le> i \<and> i < int n then Some (f (nat i)) else None)"
  by (auto simp: at_def)

lemma inside_map_upt:
  "n < 2147483648 \<Longrightarrow> inside (map f [0..<n]) i = (0 \<le> i \<and> i < int n)"
  by (simp add: inside_def static_cast_int_small)

lemma sort_0_6: "sort [0, 1, 2, 3, 4, 5, 6::int] = [0, 1, 2, 3, 4, 5, 6]"
  by (simp add: sorted_sort_id)

lemma base_hand_0_6: "those (map (\<lambda>i. at [0, 1, 2, 3, 4, 5, 6::int] (int i + 2)) [0..<5]) = Some [2, 3, 4, 5, 6]"
  using base_hand[of "[0, 1, 2, 3, 4, 5, 6::int]"] by simp

lemma loop_indices_list: "loop_indices = [0, 2, 4, 6, 8, 10, 12, 14, 16, 18, 20, 22, 24, 26, 28, 30, 32, 34, 36, 38]"
  by (simp add: loop_indices_def upt_rec)

lemma truncated_base_key: "to_ckey truncated_sim [2, 3, 4, 5, 6] = Some ([], 240)"
  by (simp add: to_ckey_def truncated_sim_def at_map_upt inside_map_upt Let_def static_cast_int_small)

lemma truncated_fields:
  "c_table truncated_sim = map (\<lambda>i. 52 - int (i mod 53)) [0..<318]"
  "table truncated_sim = map (\<lambda>k. int ((k * 7) mod 31)) [0..<241]"
  "replace truncated_sim = [0, 0, 0, 1, 1, 2, 0, 0, 1, 1, 2, 2, 2, 3, 1, 2, 0, 1, 3, 4,
                  0, 0, 1, 1, 2, 2, 3, 3, 4, 4, 4, 5, 3, 4, 2, 3, 1, 2, 0, 1]"
  by (simp_all add: truncated_sim_def example_sim_def)

lemma truncated_first_round: "eval_step truncated_sim [0, 1, 2, 3, 4, 5, 6] ([2, 3, 4, 5, 6], 240, 6) 0 = Some ([0, 3, 4, 5, 6], 242, 6)"
  by (simp add: eval_step_def truncated_fields at_map_upt inside_map_upt at_def Let_def static_cast_int_small)

lemma truncated_value: "evaluate_selection truncated_sim [0, 1, 2, 3, 4, 5, 6] = Some ([], 6)"
  unfolding evaluate_selection_def sort_0_6 Let_def base_hand_0_6 truncated_base_key
  by (simp add: truncated_base_key truncated_fields loop_indices_list eval_step_def at_map_upt
        inside_map_upt at_def static_cast_int_small)

text \<open>
  Claim C7, as the source has it. With the score table cut off after the key 240, the base
  hand of the selection \<open>0..6\<close> has the key 240, and the first substitution already computes
  the key 242, outside the table. The evaluator reports nothing and returns the score of the
  base hand, which is no sentinel.
\<close>

theorem loop_skips_silently_counterexample:
  "evaluate_selection truncated_sim [0, 1, 2, 3, 4, 5, 6] = Some ([], 6)
   \<and> eval_step truncated_sim [0, 1, 2, 3, 4, 5, 6] ([2, 3, 4, 5, 6], 240, 6) 0
        = Some ([0, 3, 4, 5, 6], 242, 6)
   \<and> int (length (table truncated_sim)) = 241"
  using truncated_value truncated_first_round by (simp add: truncated_fields)

section \<open>The best five of seven, proved\<close>

lemma length_hand_indices: "length (hand_indices i hand) = length hand"
  by (induction hand arbitrary: i) simp_all

lemma nth_hand_indices:
  "k < length hand \<Longrightarrow> hand_indices i hand ! k = static_cast_int ((i + int k + 1) * 53 + hand ! k)"
proof (induction hand arbitrary: i k)
  case Nil
  then show ?case by simp
next
  case (Cons h hand)
  show ?case
  proof (cases k)
    case 0
    then show ?thesis by simp
  next
    case (Suc k')
    with Cons.prems have "k' < length hand" by simp
    from Cons.IH[OF this, of "i + 1"] Suc show ?thesis by (simp add: algebra_simps)
  qed
qed

lemma hand_indices_update:
  "hand_indices i (hand[p := s]) =
     (hand_indices i hand)[p := static_cast_int ((i + int p + 1) * 53 + s)]"
proof (induction hand arbitrary: i p)
  case Nil
  then show ?case by simp
next
  case (Cons h hand)
  show ?case
  proof (cases p)
    case 0
    then show ?thesis by simp
  next
    case (Suc p')
    from Cons.IH[of "i + 1" p'] Suc show ?thesis by (simp add: algebra_simps)
  qed
qed

lemma sum_list_update_int:
  fixes xs :: "int list"
  shows "p < length xs \<Longrightarrow> sum_list (xs[p := y]) = sum_list xs + (y - xs ! p)"
proof (induction xs arbitrary: p)
  case Nil
  then show ?case by simp
next
  case (Cons x xs)
  then show ?case by (cases p) simp_all
qed

lemma key_sum_update:
  assumes "p < length hand"
  shows "key_sum ct i (hand[p := s]) =
           static_cast_int (key_sum ct i hand
             + static_cast_int (ct ! nat (static_cast_int ((i + int p + 1) * 53 + s))
                                - ct ! nat (static_cast_int ((i + int p + 1) * 53 + hand ! p))))"
proof -
  let ?f = "\<lambda>idx. ct ! nat idx"
  have p: "p < length (map ?f (hand_indices i hand))" using assms by (simp add: length_hand_indices)
  have "sum_list (map ?f (hand_indices i (hand[p := s])))
          = sum_list ((map ?f (hand_indices i hand))[p := ?f (static_cast_int ((i + int p + 1) * 53 + s))])"
    by (simp add: hand_indices_update map_update)
  also have "\<dots> = sum_list (map ?f (hand_indices i hand))
                   + (?f (static_cast_int ((i + int p + 1) * 53 + s)) - map ?f (hand_indices i hand) ! p)"
    by (rule sum_list_update_int[OF p])
  also have "map ?f (hand_indices i hand) ! p = ?f (static_cast_int ((i + int p + 1) * 53 + hand ! p))"
    using assms by (simp add: length_hand_indices nth_hand_indices)
  finally show ?thesis
    unfolding key_sum_def by (simp only: static_cast_int_add_left static_cast_int_add_right)
qed

lemma score5_D:
  assumes "score5 sim hand = Some v"
  shows "to_ckey sim hand = Some ([], key_sum (c_table sim) 0 hand)"
    and "\<forall>k<length hand. inside (c_table sim) (static_cast_int ((int k + 1) * 53 + hand ! k))"
    and "inside (table sim) (key_sum (c_table sim) 0 hand)"
    and "v = table sim ! nat (key_sum (c_table sim) 0 hand)"
proof -
  let ?bad = "filter (\<lambda>idx. \<not> inside (c_table sim) idx) (hand_indices 0 hand)"
  from assms obtain key where tk: "to_ckey sim hand = Some ([], key)"
    and rng: "\<not> (key < 0 \<or> key \<ge> static_cast_int (int (length (table sim))))"
    and v: "at (table sim) key = Some v"
    unfolding score5_def by (auto split: bind_splits if_splits)
  from tk to_ckey_char[of sim hand] have bad: "?bad = []"
    and k: "key = key_sum (c_table sim) 0 hand" by (auto split: if_splits)
  show "to_ckey sim hand = Some ([], key_sum (c_table sim) 0 hand)" using tk k by simp
  show "\<forall>k<length hand. inside (c_table sim) (static_cast_int ((int k + 1) * 53 + hand ! k))"
  proof (intro allI impI)
    fix k assume kl: "k < length hand"
    then have "hand_indices 0 hand ! k \<in> set (hand_indices 0 hand)"
      by (simp add: length_hand_indices)
    with bad have "inside (c_table sim) (hand_indices 0 hand ! k)"
      by (auto simp: filter_empty_conv)
    then show "inside (c_table sim) (static_cast_int ((int k + 1) * 53 + hand ! k))"
      using nth_hand_indices[OF kl, of 0] by simp
  qed
  from rng k show ins: "inside (table sim) (key_sum (c_table sim) 0 hand)"
    by (simp add: inside_def)
  from v k inside_at[OF ins] show "v = table sim ! nat (key_sum (c_table sim) 0 hand)" by simp
qed

lemma eval_step_substitutes:
  assumes j: "0 \<le> j" "j + 1 < int (length (replace sim))" "length (replace sim) = 40"
    and vp: "valid_pair (replace sim) j"
    and sel: "length sel = 7" and ps: "length ps = 5"
    and cur: "score5 sim (map ((!) sel) ps) = Some v"
    and nxt: "score5 sim (map ((!) sel) (ps[nat (replace sim ! nat j) := nat (replace sim ! nat (j + 1))])) = Some v'"
  shows "eval_step sim sel (map ((!) sel) ps, key_sum (c_table sim) 0 (map ((!) sel) ps), m) j =
           Some (map ((!) sel) (ps[nat (replace sim ! nat j) := nat (replace sim ! nat (j + 1))]),
                 key_sum (c_table sim) 0
                   (map ((!) sel) (ps[nat (replace sim ! nat j) := nat (replace sim ! nat (j + 1))])),
                 max m v')"
proof -
  let ?rj = "replace sim ! nat j" and ?rj1 = "replace sim ! nat (j + 1)"
  let ?hand = "map ((!) sel) ps"
  let ?ps' = "ps[nat ?rj := nat ?rj1]"
  let ?hand' = "map ((!) sel) ?ps'"
  let ?ct = "c_table sim"
  let ?i1 = "static_cast_int ((?rj + 1) * 53 + sel ! nat ?rj1)"
  let ?i2 = "static_cast_int ((?rj + 1) * 53 + ?hand ! nat ?rj)"
  from vp have r: "0 \<le> ?rj" "?rj < 5" "0 \<le> ?rj1" "?rj1 < 7" by (auto simp: valid_pair_def)
  have p: "nat ?rj < length ?hand" using r ps by simp
  have a0: "at (replace sim) j = Some ?rj" and a1: "at (replace sim) (j + 1) = Some ?rj1"
    using j by (simp_all add: at_def)
  have as: "at sel ?rj1 = Some (sel ! nat ?rj1)" using r sel by (simp add: at_def)
  have ah: "at ?hand ?rj = Some (?hand ! nat ?rj)" using r ps by (simp add: at_def)
  have h': "?hand' = ?hand[nat ?rj := sel ! nat ?rj1]" by (simp add: map_update)
  have ix: "static_cast_int (static_cast_int (static_cast_int (?rj + 1) * 53) + x)
              = static_cast_int ((?rj + 1) * 53 + x)" for x
    by (simp only: static_cast_int_add_left static_cast_int_mult_left)
  have i2: "inside ?ct ?i2"
    using score5_D(2)[OF cur] p r by (auto dest!: spec[of _ "nat ?rj"])
  have "?hand' ! nat ?rj = sel ! nat ?rj1" using p unfolding h' by simp
  moreover have "nat ?rj < length ?hand'" using p by simp
  ultimately have i1: "inside ?ct ?i1"
    using score5_D(2)[OF nxt] r by (auto dest!: spec[of _ "nat ?rj"])
  have k': "key_sum ?ct 0 ?hand' =
              static_cast_int (key_sum ?ct 0 ?hand + static_cast_int (?ct ! nat ?i1 - ?ct ! nat ?i2))"
    unfolding h' using key_sum_update[OF p, of ?ct 0 "sel ! nat ?rj1"] r by simp
  have kr: "inside (table sim) (key_sum ?ct 0 ?hand')"
    and v': "v' = table sim ! nat (key_sum ?ct 0 ?hand')"
    using score5_D(3,4)[OF nxt] by auto
  have c1: "at ?ct ?i1 = Some (?ct ! nat ?i1)" using i1 by (rule inside_at)
  have c2: "at ?ct ?i2 = Some (?ct ! nat ?i2)" using i2 by (rule inside_at)
  have t: "at (table sim) (key_sum ?ct 0 ?hand') = Some v'" using inside_at[OF kr] v' by simp
  have g1: "\<not> static_cast_int (int (length (replace sim))) \<le> j + 1"
    using j by (simp add: static_cast_int_def)
  have g2: "\<not> 5 \<le> ?rj" using r by simp
  have g3: "\<not> static_cast_int (int (length sel)) \<le> ?rj1" using r sel by (simp add: static_cast_int_def)
  show ?thesis
    unfolding eval_step_def
    apply (simp only: prod.case g1 if_False a0 a1 as ah bind.bind_lunit g2 g3 Let_def ix)
    apply (simp only: i1 i2 simp_thms if_True c1 c2 bind.bind_lunit k'[symmetric] h'[symmetric] kr t)
    done
qed

lemma index_run_hd: "index_run rep js ps = ps # tl (index_run rep js ps)"
  by (cases js) simp_all

lemma eval_loop_run:
  assumes sel: "length sel = 7" and l40: "length (replace sim) = 40"
  shows "length ps = 5 \<Longrightarrow>
     \<forall>j \<in> set js. 0 \<le> j \<and> j + 1 < int (length (replace sim)) \<and> valid_pair (replace sim) j \<Longrightarrow>
     \<forall>qs \<in> set (index_run (replace sim) js ps). score5 sim (map ((!) sel) qs) \<noteq> None \<Longrightarrow>
     \<exists>hand' key' m'.
        eval_loop sim sel js (map ((!) sel) ps, key_sum (c_table sim) 0 (map ((!) sel) ps), m)
          = Some (hand', key', m')
        \<and> m \<le> m'
        \<and> (\<forall>qs \<in> set (tl (index_run (replace sim) js ps)).
              \<exists>v. score5 sim (map ((!) sel) qs) = Some v \<and> v \<le> m')
        \<and> (m' = m \<or> (\<exists>qs \<in> set (tl (index_run (replace sim) js ps)).
                          score5 sim (map ((!) sel) qs) = Some m'))"
proof (induction js arbitrary: ps m)
  case Nil
  then show ?case by simp
next
  case (Cons j js)
  let ?rep = "replace sim"
  let ?ps' = "ps[nat (?rep ! nat j) := nat (?rep ! nat (j + 1))]"
  have run: "index_run ?rep (j # js) ps = ps # index_run ?rep js ?ps'" by simp
  have hd': "index_run ?rep js ?ps' = ?ps' # tl (index_run ?rep js ?ps')" by (rule index_run_hd)
  from Cons.prems(2) have j: "0 \<le> j" "j + 1 < int (length ?rep)" and vp: "valid_pair ?rep j"
    by auto
  from Cons.prems(3) run obtain v where cur: "score5 sim (map ((!) sel) ps) = Some v" by auto
  have "?ps' \<in> set (index_run ?rep (j # js) ps)" using run hd' by (metis list.set_intros)
  with Cons.prems(3) obtain v' where nxt: "score5 sim (map ((!) sel) ?ps') = Some v'" by blast
  have st: "eval_step sim sel (map ((!) sel) ps, key_sum (c_table sim) 0 (map ((!) sel) ps), m) j =
           Some (map ((!) sel) ?ps', key_sum (c_table sim) 0 (map ((!) sel) ?ps'), max m v')"
    by (rule eval_step_substitutes[OF j l40 vp sel Cons.prems(1) cur nxt])
  have l': "length ?ps' = 5" using Cons.prems(1) by simp
  have js: "\<forall>j \<in> set js. 0 \<le> j \<and> j + 1 < int (length ?rep) \<and> valid_pair ?rep j"
    using Cons.prems(2) by simp
  have good: "\<forall>qs \<in> set (index_run ?rep js ?ps'). score5 sim (map ((!) sel) qs) \<noteq> None"
    using Cons.prems(3) run by simp
  from Cons.IH[OF l' js good, of "max m v'"]
  obtain hand' key' m' where
    el: "eval_loop sim sel js (map ((!) sel) ?ps', key_sum (c_table sim) 0 (map ((!) sel) ?ps'), max m v')
          = Some (hand', key', m')"
    and ge: "max m v' \<le> m'"
    and all: "\<forall>qs \<in> set (tl (index_run ?rep js ?ps')). \<exists>v. score5 sim (map ((!) sel) qs) = Some v \<and> v \<le> m'"
    and ex: "m' = max m v' \<or> (\<exists>qs \<in> set (tl (index_run ?rep js ?ps')). score5 sim (map ((!) sel) qs) = Some m')"
    by blast
  have tl_eq: "tl (index_run ?rep (j # js) ps) = ?ps' # tl (index_run ?rep js ?ps')"
    using run hd' by simp
  have 1: "eval_loop sim sel (j # js) (map ((!) sel) ps, key_sum (c_table sim) 0 (map ((!) sel) ps), m)
          = Some (hand', key', m')"
    using st el by simp
  have 2: "m \<le> m'" using ge by simp
  have 3: "\<forall>qs \<in> set (tl (index_run ?rep (j # js) ps)). \<exists>v. score5 sim (map ((!) sel) qs) = Some v \<and> v \<le> m'"
    unfolding tl_eq using all nxt ge by auto
  have 4: "m' = m \<or> (\<exists>qs \<in> set (tl (index_run ?rep (j # js) ps)). score5 sim (map ((!) sel) qs) = Some m')"
  proof (cases "m' = max m v'")
    case True
    then show ?thesis unfolding tl_eq using nxt by (auto simp: max_def split: if_splits)
  next
    case False
    with ex show ?thesis unfolding tl_eq by auto
  qed
  from 1 2 3 4 show ?case by blast
qed

lemma subseqs_map: "subseqs (map f xs) = map (map f) (subseqs xs)"
  by (induction xs) (simp_all add: Let_def)

lemma five_card_subsets_map: "five_card_subsets (map f xs) = map (map f) (five_card_subsets xs)"
  unfolding five_card_subsets_def subseqs_map filter_map by (simp add: comp_def)

lemma five_card_subsets_positions:
  "length sel = 7 \<Longrightarrow> five_card_subsets sel = map (map ((!) sel)) (five_card_subsets [0..<7])"
  using five_card_subsets_map[of "(!) sel" "[0..<7]"] map_nth[of sel] by simp

lemma loop_indices_range: "\<forall>j \<in> set loop_indices. 0 \<le> j \<and> j + 1 < 40"
  by (auto simp: loop_indices_def)

text \<open>
  Claim C1. For a selection of seven cards, a substitution table that is a valid schedule,
  and lookup tables that score every five-card subset of the selection,
  \<open>evaluate_selection\<close> prints nothing and returns a score that is at least the \<open>score5\<close>
  of each of the 21 five-card subsets of the sorted selection and is the \<open>score5\<close> of one
  of them: their maximum. The embedding of \<open>evaluate_selection\<close> is the computation of the
  source: the base hand at the positions \<open>2..6\<close> of the sorted selection, then the 20
  substitutions of \<open>loop_indices\<close>, each changing the key by the difference of two
  contributions, with the running maximum.
\<close>

theorem best_of_7:
  assumes len: "length selection = 7"
    and sched: "valid_schedule (replace sim)"
    and tables: "\<forall>h \<in> set (five_card_subsets (sort selection)). score5 sim h \<noteq> None"
  shows "length (five_card_subsets (sort selection)) = 21
       \<and> (\<exists>best. evaluate_selection sim selection = Some ([], best)
       \<and> (\<forall>h \<in> set (five_card_subsets (sort selection)). \<exists>v. score5 sim h = Some v \<and> v \<le> best)
       \<and> (\<exists>h \<in> set (five_card_subsets (sort selection)). score5 sim h = Some best))"
proof -
  let ?sel = "sort selection"
  let ?rep = "replace sim"
  let ?run = "index_run ?rep loop_indices [2, 3, 4, 5, 6]"
  let ?base = "map ((!) ?sel) [2, 3, 4, 5, 6]"
  have sel: "length ?sel = 7" using len by simp
  have l7: "7 \<le> length ?sel" using len by simp
  from sched have l40: "length ?rep = 40" and vps: "list_all (valid_pair ?rep) loop_indices"
    and cover: "set ?run = set (five_card_subsets [0..<7])"
    by (auto simp: valid_schedule_def)
  have subs: "set (five_card_subsets ?sel) = map ((!) ?sel) ` set (five_card_subsets [0..<7])"
    using five_card_subsets_positions[OF sel] by (metis set_map)
  have good: "\<forall>qs \<in> set ?run. score5 sim (map ((!) ?sel) qs) \<noteq> None"
    using tables subs cover by auto
  have js: "\<forall>j \<in> set loop_indices. 0 \<le> j \<and> j + 1 < int (length ?rep) \<and> valid_pair ?rep j"
    using loop_indices_range vps l40 by (auto simp: list_all_iff)
  have hd: "?run = [2, 3, 4, 5, 6] # tl ?run" by (rule index_run_hd)
  then have "[2, 3, 4, 5, 6] \<in> set ?run" by (metis list.set_intros(1))
  with good obtain v0 where v0: "score5 sim ?base = Some v0" by blast
  have bh: "those (map (\<lambda>i. at ?sel (int i + 2)) [0..<5]) = Some ?base"
    using base_hand[OF l7] by simp
  have tk: "to_ckey sim ?base = Some ([], key_sum (c_table sim) 0 ?base)"
    by (rule score5_D(1)[OF v0])
  have ki: "inside (table sim) (key_sum (c_table sim) 0 ?base)"
    and v0eq: "v0 = table sim ! nat (key_sum (c_table sim) 0 ?base)"
    using score5_D(3,4)[OF v0] by auto
  have kr: "\<not> (key_sum (c_table sim) 0 ?base < 0
               \<or> key_sum (c_table sim) 0 ?base \<ge> static_cast_int (int (length (table sim))))"
    using ki by (auto simp: inside_def)
  have a: "at (table sim) (key_sum (c_table sim) 0 ?base) = Some v0"
    using inside_at[OF ki] v0eq by simp
  from eval_loop_run[OF sel l40 _ js good, of v0]
  obtain hand' key' best where
    el: "eval_loop sim ?sel loop_indices (?base, key_sum (c_table sim) 0 ?base, v0) = Some (hand', key', best)"
    and ge: "v0 \<le> best"
    and all: "\<forall>qs \<in> set (tl ?run). \<exists>v. score5 sim (map ((!) ?sel) qs) = Some v \<and> v \<le> best"
    and ex: "best = v0 \<or> (\<exists>qs \<in> set (tl ?run). score5 sim (map ((!) ?sel) qs) = Some best)"
    by auto
  have ev: "evaluate_selection sim selection = Some ([], best)"
    unfolding evaluate_selection_def Let_def using len bh tk kr a el by simp
  have set_run: "set ?run = insert [2, 3, 4, 5, 6] (set (tl ?run))"
    using hd by (metis list.simps(15))
  have all': "\<forall>qs \<in> set ?run. \<exists>v. score5 sim (map ((!) ?sel) qs) = Some v \<and> v \<le> best"
    unfolding set_run using all v0 ge by auto
  have ex': "\<exists>qs \<in> set ?run. score5 sim (map ((!) ?sel) qs) = Some best"
    unfolding set_run using ex v0 by auto
  have A: "\<forall>h \<in> set (five_card_subsets ?sel). \<exists>v. score5 sim h = Some v \<and> v \<le> best"
    unfolding subs using all' cover by auto
  have B: "\<exists>h \<in> set (five_card_subsets ?sel). score5 sim h = Some best"
    unfolding subs using ex' cover by auto
  have "length (five_card_subsets ?sel) = length (five_card_subsets [0..<7])"
    using five_card_subsets_positions[OF sel] by simp
  also have "\<dots> = 21" by (simp add: five_card_subsets_def upt_rec Let_def)
  finally have C: "length (five_card_subsets ?sel) = 21" .
  from ev A B C show ?thesis by blast
qed

lemma example_replace: "replace example_sim = [0, 0, 0, 1, 1, 2, 0, 0, 1, 1, 2, 2, 2, 3, 1, 2, 0, 1, 3, 4,
                  0, 0, 1, 1, 2, 2, 3, 3, 4, 4, 4, 5, 3, 4, 2, 3, 1, 2, 0, 1]"
  by (simp add: example_sim_def)

lemma five_card_subsets_of_7: "five_card_subsets [a, b, c, d, e, f, g] =
  [[a, b, c, d, e], [a, b, c, d, f], [a, b, c, d, g], [a, b, c, e, f], [a, b, c, e, g],
   [a, b, c, f, g], [a, b, d, e, f], [a, b, d, e, g], [a, b, d, f, g], [a, b, e, f, g],
   [a, c, d, e, f], [a, c, d, e, g], [a, c, d, f, g], [a, c, e, f, g], [a, d, e, f, g],
   [b, c, d, e, f], [b, c, d, e, g], [b, c, d, f, g], [b, c, e, f, g], [b, d, e, f, g],
   [c, d, e, f, g]]"
  by (simp add: five_card_subsets_def Let_def)

lemma upt_7: "[0..<7] = [0, 1, 2, 3, 4, 5, 6]"
  by (simp add: upt_rec)

lemma example_index_run: "index_run (replace example_sim) loop_indices [2, 3, 4, 5, 6] =
   [[2, 3, 4, 5, 6], [0, 3, 4, 5, 6], [1, 3, 4, 5, 6], [1, 2, 4, 5, 6], [0, 2, 4, 5, 6],
    [0, 1, 4, 5, 6], [0, 1, 2, 5, 6], [0, 1, 3, 5, 6], [0, 2, 3, 5, 6], [1, 2, 3, 5, 6],
    [1, 2, 3, 4, 6], [0, 2, 3, 4, 6], [0, 1, 3, 4, 6], [0, 1, 2, 4, 6], [0, 1, 2, 3, 6],
    [0, 1, 2, 3, 4], [0, 1, 2, 3, 5], [0, 1, 2, 4, 5], [0, 1, 3, 4, 5], [0, 2, 3, 4, 5],
    [1, 2, 3, 4, 5]]"
  unfolding loop_indices_list example_replace by simp

lemma example_valid_schedule: "valid_schedule (replace example_sim)"
  unfolding valid_schedule_def
proof (intro conjI)
  show "length (replace example_sim) = 40" by (simp add: example_replace)
  show "list_all (valid_pair (replace example_sim)) loop_indices"
    unfolding loop_indices_list example_replace by (simp add: valid_pair_def)
  show "set (index_run (replace example_sim) loop_indices [2, 3, 4, 5, 6]) = set (five_card_subsets [0..<7])"
    unfolding example_index_run upt_7 five_card_subsets_of_7 by (intro equalityI) simp_all
qed

lemma example_fields:
  "c_table example_sim = map (\<lambda>i. int (i mod 53)) [0..<318]"
  "table example_sim = map (\<lambda>k. int ((k * 7) mod 31)) [0..<250]"
  by (simp_all add: example_sim_def)

lemma example_sort: "sort [40, 3, 17, 51, 8, 22, 30::int] = [3, 8, 17, 22, 30, 40, 51]"
  by simp

lemma example_scores_defined:
  "\<forall>h \<in> set (five_card_subsets [3, 8, 17, 22, 30, 40, 51]). score5 example_sim h \<noteq> None"
  unfolding five_card_subsets_of_7
  by (simp add: score5_def to_ckey_def example_fields at_map_upt inside_map_upt Let_def static_cast_int_small)

lemma example_base_hand:
  "those (map (\<lambda>i. at [3, 8, 17, 22, 30, 40, 51::int] (int i + 2)) [0..<5]) = Some [17, 22, 30, 40, 51]"
  using base_hand[of "[3, 8, 17, 22, 30, 40, 51::int]"] by simp

lemma example_value: "evaluate_selection example_sim [40, 3, 17, 51, 8, 22, 30] = Some ([], 30)"
  unfolding evaluate_selection_def example_sort Let_def example_base_hand
  by (simp add: to_ckey_def example_fields example_replace loop_indices_list eval_step_def at_map_upt
        inside_map_upt at_def Let_def static_cast_int_small)

text \<open>
  The seven cards 40, 3, 17, 51, 8, 22, 30 with the example tables: the best score is 30.
\<close>

theorem best_of_7_witness:
  "evaluate_selection example_sim [40, 3, 17, 51, 8, 22, 30] = Some ([], 30)
   \<and> (\<exists>h \<in> set (five_card_subsets (sort [40, 3, 17, 51, 8, 22, 30])).
         score5 example_sim h = Some 30)"
proof -
  have t: "\<forall>h \<in> set (five_card_subsets (sort [40, 3, 17, 51, 8, 22, 30])). score5 example_sim h \<noteq> None"
    unfolding example_sort by (rule example_scores_defined)
  from best_of_7[OF _ example_valid_schedule t] example_value show ?thesis by auto
qed

section \<open>Facts about a trial\<close>

lemma upd56: "(sel[5 := c5, 6 := c6])[5 := a, 6 := b] = sel[5 := a, 6 := (b::'a)]"
proof -
  have "(sel[5 := c5, 6 := c6])[5 := a] = sel[5 := a, 6 := c6]"
    by (simp add: list_update_swap[of 5 6])
  then show ?thesis by simp
qed

lemma evaluated_seats_Cons:
  "evaluated_seats sim sel ((ix, c5, c6) # rest) =
     (case evaluate_selection sim (sel[5 := c5, 6 := c6]) of
        Some (log, v) \<Rightarrow> if v \<ge> 0 then [(ix, v)] else []
      | None \<Rightarrow> []) @ evaluated_seats sim sel rest"
  by (simp add: evaluated_seats_def)

lemma evaluated_seats_cong:
  "(\<And>a b. sel'[5 := a, 6 := b] = sel[5 := a, 6 := b]) \<Longrightarrow>
   evaluated_seats sim sel' seats = evaluated_seats sim sel seats"
  by (simp add: evaluated_seats_def)

lemma run_winners_append:
  "run_winners (xs @ ys) st = run_winners ys (run_winners xs st)"
  by (induction xs st rule: run_winners.induct) simp_all

lemma seat_eval_run:
  assumes nonneg: "\<forall>r \<in> set (replace sim). 0 \<le> r" and len: "7 \<le> length sel"
  shows "seat_eval sim c5 c6 ix (sel, mv, w) =
     Some (sel[5 := c5, 6 := c6], run_winners (evaluated_seats sim sel [(ix, c5, c6)]) (mv, w))"
proof -
  from evaluate_selection_total[OF nonneg, of "sel[5 := c5, 6 := c6]"]
  obtain log v where e: "evaluate_selection sim (sel[5 := c5, 6 := c6]) = Some (log, v)" by blast
  show ?thesis
    using e len by (cases "update_winners v mv ix w") (simp add: seat_eval_def evaluated_seats_def Let_def)
qed

lemma simulate_known_run:
  assumes nonneg: "\<forall>r \<in> set (replace sim). 0 \<le> r"
  shows "7 \<le> length sel \<Longrightarrow>
     \<exists>sel'. simulate_known sim khs i (sel, mv, w) =
             Some (sel', run_winners (evaluated_seats sim sel (known_seats khs i)) (mv, w))
        \<and> length sel' = length sel \<and> (\<forall>a b. sel'[5 := a, 6 := b] = sel[5 := a, 6 := b])"
proof (induction khs arbitrary: i sel mv w)
  case Nil
  then show ?case by (simp add: evaluated_seats_def)
next
  case (Cons kh khs)
  show ?case
  proof (cases "length kh < 2")
    case True
    then show ?thesis using Cons.IH[OF Cons.prems, of "i + 1" mv w] by simp
  next
    case False
    let ?sel1 = "sel[5 := kh ! 0, 6 := kh ! 1]"
    obtain mv1 w1 where rw: "run_winners (evaluated_seats sim sel [(i, kh ! 0, kh ! 1)]) (mv, w) = (mv1, w1)"
      by (cases "run_winners (evaluated_seats sim sel [(i, kh ! 0, kh ! 1)]) (mv, w)")
    have se: "seat_eval sim (kh ! 0) (kh ! 1) i (sel, mv, w) = Some (?sel1, mv1, w1)"
      using seat_eval_run[OF nonneg Cons.prems, of "kh ! 0" "kh ! 1" i mv w] rw by simp
    have l1: "7 \<le> length ?sel1" using Cons.prems by simp
    from Cons.IH[OF l1, of "i + 1" mv1 w1] obtain sel' where
      sk: "simulate_known sim khs (i + 1) (?sel1, mv1, w1) =
             Some (sel', run_winners (evaluated_seats sim ?sel1 (known_seats khs (i + 1))) (mv1, w1))"
      and ls: "length sel' = length ?sel1"
      and ag: "\<forall>a b. sel'[5 := a, 6 := b] = ?sel1[5 := a, 6 := b]" by blast
    have cg: "evaluated_seats sim ?sel1 (known_seats khs (i + 1)) = evaluated_seats sim sel (known_seats khs (i + 1))"
      by (rule evaluated_seats_cong) (rule upd56)
    have ats: "at kh 0 = Some (kh ! 0)" "at kh 1 = Some (kh ! 1)" using False by (auto simp: at_def)
    have ks: "known_seats (kh # khs) i = (i, kh ! 0, kh ! 1) # known_seats khs (i + 1)"
      using False by simp
    have es: "evaluated_seats sim sel (known_seats (kh # khs) i) =
        evaluated_seats sim sel [(i, kh ! 0, kh ! 1)] @ evaluated_seats sim sel (known_seats khs (i + 1))"
      unfolding ks by (simp add: evaluated_seats_def)
    have "simulate_known sim (kh # khs) i (sel, mv, w) =
        Some (sel', run_winners (evaluated_seats sim sel (known_seats (kh # khs) i)) (mv, w))"
      using False ats se sk cg unfolding es run_winners_append rw by simp
    moreover have "length sel' = length sel" using ls by simp
    moreover have "\<forall>a b. sel'[5 := a, 6 := b] = sel[5 := a, 6 := b]" using ag by (simp add: upd56)
    ultimately show ?thesis by blast
  qed
qed

lemma simulate_unknown_run:
  assumes nonneg: "\<forall>r \<in> set (replace sim). 0 \<le> r"
  shows "7 \<le> length sel \<Longrightarrow> 0 \<le> start \<Longrightarrow> 0 \<le> i \<Longrightarrow>
     \<exists>sel'. simulate_unknown sim n sample start i (sel, mv, w) =
             Some (sel', run_winners (evaluated_seats sim sel (unknown_seats n sample start i)) (mv, w))
        \<and> length sel' = length sel \<and> (\<forall>a b. sel'[5 := a, 6 := b] = sel[5 := a, 6 := b])"
proof (induction n sample start i arbitrary: sel mv w rule: unknown_seats.induct)
  case (1 n sample start i)
  show ?case
  proof (cases "start + i * 2 + 1 < int (length sample)")
    case False
    then show ?thesis
      by (subst simulate_unknown.simps, subst unknown_seats.simps) (simp add: evaluated_seats_def)
  next
    case True
    let ?c5 = "sample ! nat (start + i * 2)" and ?c6 = "sample ! nat (start + i * 2 + 1)"
    let ?sel1 = "sel[5 := ?c5, 6 := ?c6]"
    obtain mv1 w1 where rw: "run_winners (evaluated_seats sim sel [(n + i, ?c5, ?c6)]) (mv, w) = (mv1, w1)"
      by (cases "run_winners (evaluated_seats sim sel [(n + i, ?c5, ?c6)]) (mv, w)")
    have se: "seat_eval sim ?c5 ?c6 (n + i) (sel, mv, w) = Some (?sel1, mv1, w1)"
      using seat_eval_run[OF nonneg "1.prems"(1), of ?c5 ?c6 "n + i" mv w] rw by simp
    have l1: "7 \<le> length ?sel1" using "1.prems"(1) by simp
    have i1: "0 \<le> i + 1" using "1.prems"(3) by simp
    from "1.IH"[OF True l1 "1.prems"(2) i1, of mv1 w1] obtain sel' where
      sk: "simulate_unknown sim n sample start (i + 1) (?sel1, mv1, w1) =
             Some (sel', run_winners (evaluated_seats sim ?sel1 (unknown_seats n sample start (i + 1))) (mv1, w1))"
      and ls: "length sel' = length ?sel1"
      and ag: "\<forall>a b. sel'[5 := a, 6 := b] = ?sel1[5 := a, 6 := b]" by blast
    have cg: "evaluated_seats sim ?sel1 (unknown_seats n sample start (i + 1))
               = evaluated_seats sim sel (unknown_seats n sample start (i + 1))"
      by (rule evaluated_seats_cong) (rule upd56)
    have ats: "at sample (start + i * 2) = Some ?c5" "at sample (start + i * 2 + 1) = Some ?c6"
      using True "1.prems"(2,3) by (simp_all add: at_def)
    have us: "unknown_seats n sample start i = (n + i, ?c5, ?c6) # unknown_seats n sample start (i + 1)"
      using True by (subst unknown_seats.simps) simp
    have es: "evaluated_seats sim sel (unknown_seats n sample start i) =
        evaluated_seats sim sel [(n + i, ?c5, ?c6)] @ evaluated_seats sim sel (unknown_seats n sample start (i + 1))"
      unfolding us by (simp add: evaluated_seats_def)
    have "simulate_unknown sim n sample start i (sel, mv, w) =
        Some (sel', run_winners (evaluated_seats sim sel (unknown_seats n sample start i)) (mv, w))"
      unfolding es run_winners_append rw
      by (subst simulate_unknown.simps) (simp add: True ats se sk cg)
    moreover have "length sel' = length sel" using ls by simp
    moreover have "\<forall>a b. sel'[5 := a, 6 := b] = sel[5 := a, 6 := b]" using ag by (simp add: upd56)
    ultimately show ?thesis by blast
  qed
qed


lemma run_winners_snoc:
  "run_winners (xs @ [(ix, v)]) st =
     update_winners v (fst (run_winners xs st)) ix (snd (run_winners xs st))"
  by (cases "run_winners xs st") (simp add: run_winners_append)

lemma run_winners_inv:
  assumes "\<forall>(ix, v) \<in> set scored. 0 \<le> v"
  shows "0 \<le> fst (run_winners scored (0, []))
     \<and> (\<forall>(ix, v) \<in> set scored. v \<le> fst (run_winners scored (0, [])))
     \<and> (scored \<noteq> [] \<longrightarrow> fst (run_winners scored (0, [])) \<in> snd ` set scored)
     \<and> snd (run_winners scored (0, []))
         = map fst (filter (\<lambda>(ix, v). v = fst (run_winners scored (0, []))) scored)"
  using assms
proof (induction scored rule: rev_induct)
  case Nil
  then show ?case by simp
next
  case (snoc x xs)
  obtain ix v where x: "x = (ix, v)" by (cases x)
  let ?mv = "fst (run_winners xs (0, []))" and ?w = "snd (run_winners xs (0, []))"
  from snoc.prems have v0: "0 \<le> v" and pre: "\<forall>(ix, v) \<in> set xs. 0 \<le> v" using x by auto
  from snoc.IH[OF pre] have
    i1: "0 \<le> ?mv" and i2: "\<forall>(ix, v) \<in> set xs. v \<le> ?mv"
    and i3: "xs \<noteq> [] \<longrightarrow> ?mv \<in> snd ` set xs"
    and i4: "?w = map fst (filter (\<lambda>(ix, v). v = ?mv) xs)" by auto
  have rw: "run_winners (xs @ [x]) (0, []) = update_winners v ?mv ix ?w"
    unfolding x by (rule run_winners_snoc)
  consider (gt) "v > ?mv" | (eq) "v = ?mv" | (lt) "v < ?mv" by linarith
  then show ?case
  proof cases
    case gt
    then have f: "filter (\<lambda>(ix, v'). v' = v) xs = []" using i2 by (auto simp: filter_empty_conv)
    have r: "run_winners (xs @ [x]) (0, []) = (v, [ix])" using gt rw by (simp add: update_winners_def)
    show ?thesis unfolding r using v0 i2 gt f x by (auto simp: image_iff)
  next
    case eq
    have r: "run_winners (xs @ [x]) (0, []) = (?mv, ?w @ [ix])" using eq rw by (simp add: update_winners_def)
    show ?thesis unfolding r using i1 i2 i4 eq x by (auto simp: image_iff)
  next
    case lt
    have r: "run_winners (xs @ [x]) (0, []) = (?mv, ?w)" using lt rw by (simp add: update_winners_def)
    have ne: "xs \<noteq> []"
    proof
      assume "xs = []"
      then have "?mv = 0" by simp
      with lt v0 show False by simp
    qed
    show ?thesis unfolding r using i1 i2 i3 i4 lt x ne by (auto simp: image_iff)
  qed
qed

lemma run_winners_tied:
  assumes "\<forall>(ix, v) \<in> set scored. 0 \<le> v"
  shows "snd (run_winners scored (0, [])) = tied_seats scored"
proof -
  let ?mv = "fst (run_winners scored (0, []))"
  from run_winners_inv[OF assms] have
    i2: "\<forall>(ix, v) \<in> set scored. v \<le> ?mv"
    and i3: "scored \<noteq> [] \<longrightarrow> ?mv \<in> snd ` set scored"
    and i4: "snd (run_winners scored (0, [])) = map fst (filter (\<lambda>(ix, v). v = ?mv) scored)"
    by auto
  have "filter (\<lambda>(ix, v). v = ?mv) scored
        = filter (\<lambda>(ix, v). list_all (\<lambda>(ix', v'). v' \<le> v) scored) scored"
  proof (rule filter_cong[OF refl])
    fix x assume xin: "x \<in> set scored"
    obtain ix v where x: "x = (ix, v)" by (cases x)
    from xin i3 obtain y where y: "y \<in> set scored" "snd y = ?mv" by auto
    have "(v = ?mv) = (\<forall>(ix', v') \<in> set scored. v' \<le> v)"
    proof
      assume "v = ?mv" then show "\<forall>(ix', v') \<in> set scored. v' \<le> v" using i2 by auto
    next
      assume a: "\<forall>(ix', v') \<in> set scored. v' \<le> v"
      with y have "?mv \<le> v" by (cases y) auto
      moreover have "v \<le> ?mv" using i2 xin x by auto
      ultimately show "v = ?mv" by simp
    qed
    then show "(case x of (ix, v) \<Rightarrow> v = ?mv)
        = (case x of (ix, v) \<Rightarrow> list_all (\<lambda>(ix', v'). v' \<le> v) scored)"
      unfolding x by (simp add: list_all_iff case_prod_beta)
  qed
  with i4 show ?thesis unfolding tied_seats_def by simp
qed

lemma evaluated_seats_nonneg: "\<forall>(ix, v) \<in> set (evaluated_seats sim sel seats). 0 \<le> v"
  unfolding evaluated_seats_def by (auto split: option.splits if_splits)

lemma evaluated_seats_append:
  "evaluated_seats sim sel (xs @ ys) = evaluated_seats sim sel xs @ evaluated_seats sim sel ys"
  by (simp add: evaluated_seats_def)

lemma fst_evaluated_seats: "set (map fst (evaluated_seats sim sel seats)) \<subseteq> set (map fst seats)"
proof (induction seats)
  case Nil
  then show ?case by (simp add: evaluated_seats_def)
next
  case (Cons x xs)
  obtain ix c5 c6 where x: "x = (ix, c5, c6)" by (cases x)
  show ?case unfolding x evaluated_seats_Cons using Cons.IH
    by (auto split: option.splits if_splits)
qed

lemma distinct_evaluated_seats:
  "distinct (map fst seats) \<Longrightarrow> distinct (map fst (evaluated_seats sim sel seats))"
proof (induction seats)
  case Nil
  then show ?case by (simp add: evaluated_seats_def)
next
  case (Cons x xs)
  obtain ix c5 c6 where x: "x = (ix, c5, c6)" by (cases x)
  from Cons.prems have nin: "ix \<notin> set (map fst xs)" and d: "distinct (map fst xs)" using x by auto
  from nin fst_evaluated_seats[of sim sel xs] have n2: "ix \<notin> set (map fst (evaluated_seats sim sel xs))"
    by blast
  show ?case unfolding x evaluated_seats_Cons using Cons.IH[OF d] n2
    by (auto split: option.splits)
qed

lemma known_seats_range:
  "\<forall>ix \<in> set (map fst (known_seats khs i)). i \<le> ix \<and> ix < i + int (length khs)"
  by (induction khs arbitrary: i) (auto, force+)

lemma known_seats_distinct: "distinct (map fst (known_seats khs i))"
proof (induction khs arbitrary: i)
  case Nil
  then show ?case by simp
next
  case (Cons kh khs)
  have "i \<notin> set (map fst (known_seats khs (i + 1)))"
    using known_seats_range[of khs "i + 1"] by auto
  then show ?case using Cons.IH[of "i + 1"] by simp
qed

lemma unknown_seats_range:
  "\<forall>ix \<in> set (map fst (unknown_seats n sample start i)).
      n + i \<le> ix \<and> start + (ix - n) * 2 + 1 < int (length sample)"
proof (induction n sample start i rule: unknown_seats.induct)
  case (1 n sample start i)
  show ?case
  proof (cases "start + i * 2 + 1 < int (length sample)")
    case True
    then show ?thesis using "1.IH"[OF True]
      by (subst unknown_seats.simps) auto
  next
    case False
    then show ?thesis by (subst unknown_seats.simps) simp
  qed
qed

lemma unknown_seats_distinct: "distinct (map fst (unknown_seats n sample start i))"
proof (induction n sample start i rule: unknown_seats.induct)
  case (1 n sample start i)
  show ?case
  proof (cases "start + i * 2 + 1 < int (length sample)")
    case True
    have "n + i \<notin> set (map fst (unknown_seats n sample start (i + 1)))"
      using unknown_seats_range[of n sample start "i + 1"] by auto
    then show ?thesis using "1.IH"[OF True] True
      by (subst unknown_seats.simps) simp
  next
    case False
    then show ?thesis by (subst unknown_seats.simps) simp
  qed
qed

lemma seat_list_distinct: "distinct (map fst (seat_list known_hands sample start))"
  unfolding seat_list_def
  using known_seats_distinct[of known_hands 0]
    unknown_seats_distinct[of "int (length known_hands)" sample start 0]
    known_seats_range[of known_hands 0]
    unknown_seats_range[of "int (length known_hands)" sample start 0]
  by (auto simp: distinct_append) force

lemma seat_list_range:
  assumes "int (length sample) = start + 2 * players_unknown" and pu: "0 \<le> players_unknown"
  shows "\<forall>ix \<in> set (map fst (seat_list known_hands sample start)).
           0 \<le> ix \<and> ix < int (length known_hands) + players_unknown"
proof
  fix ix assume "ix \<in> set (map fst (seat_list known_hands sample start))"
  then consider (k) "ix \<in> set (map fst (known_seats known_hands 0))"
    | (u) "ix \<in> set (map fst (unknown_seats (int (length known_hands)) sample start 0))"
    unfolding seat_list_def by auto
  then show "0 \<le> ix \<and> ix < int (length known_hands) + players_unknown"
  proof cases
    case k
    with known_seats_range[of known_hands 0] have "0 \<le> ix" "ix < int (length known_hands)" by auto
    then show ?thesis using pu by simp
  next
    case u
    with unknown_seats_range[of "int (length known_hands)" sample start 0]
    have "int (length known_hands) \<le> ix"
      "start + (ix - int (length known_hands)) * 2 + 1 < int (length sample)" by auto
    with assms show ?thesis by auto
  qed
qed

lemma row2_upd:
  assumes "length row = 2"
  shows "row[0 := x] = [x, row ! 1]" and "row[Suc 0 := x] = [row ! 0, x]"
proof -
  from assms obtain a b where "row = [a, b]"
    by (cases row; cases "tl row") auto
  then show "row[0 := x] = [x, row ! 1]" and "row[Suc 0 := x] = [row ! 0, x]" by simp_all
qed

lemma increment_win:
  assumes "0 \<le> w" "w < int (length results)" "length (results ! nat w) = 2"
  shows "increment results w 0 = Some (results[nat w := [results ! nat w ! 0 + 1, results ! nat w ! 1]])"
  using assms row2_upd(1)[OF assms(3)] by (auto simp: increment_def at_def)

lemma increment_tie:
  assumes "0 \<le> w" "w < int (length results)" "length (results ! nat w) = 2"
  shows "increment results w 1 = Some (results[nat w := [results ! nat w ! 0, results ! nat w ! 1 + 1]])"
  using assms row2_upd(2)[OF assms(3)] by (auto simp: increment_def at_def)

lemma tie_loop_spec:
  "distinct winners \<Longrightarrow> \<forall>w \<in> set winners. 0 \<le> w \<and> w < int (length results) \<Longrightarrow>
   \<forall>row \<in> set results. length row = 2 \<Longrightarrow>
   \<exists>results'. tie_loop winners results = Some results' \<and> length results' = length results
      \<and> (\<forall>ix < length results. results' ! ix =
            (if int ix \<in> set winners then [results ! ix ! 0, results ! ix ! 1 + 1]
             else results ! ix))"
proof (induction winners arbitrary: results)
  case Nil
  then show ?case by simp
next
  case (Cons w rest)
  from Cons.prems have w: "0 \<le> w" "w < int (length results)" and nin: "w \<notin> set rest"
    and d: "distinct rest" by auto
  have r2: "length (results ! nat w) = 2" using Cons.prems(3) w by auto
  let ?r1 = "results[nat w := [results ! nat w ! 0, results ! nat w ! 1 + 1]]"
  have inc: "increment results w 1 = Some ?r1" by (rule increment_tie[OF w r2])
  have rng: "\<forall>w \<in> set rest. 0 \<le> w \<and> w < int (length ?r1)" using Cons.prems(2) by simp
  have rows: "\<forall>row \<in> set ?r1. length row = 2"
  proof
    fix row assume "row \<in> set ?r1"
    then have "row \<in> insert [results ! nat w ! 0, results ! nat w ! 1 + 1] (set results)"
      using set_update_subset_insert by fastforce
    then show "length row = 2" using Cons.prems(3) by auto
  qed
  from Cons.IH[OF d rng rows] obtain results' where
    tl: "tie_loop rest ?r1 = Some results'" and len: "length results' = length ?r1"
    and nth: "\<forall>ix < length ?r1. results' ! ix =
            (if int ix \<in> set rest then [?r1 ! ix ! 0, ?r1 ! ix ! 1 + 1] else ?r1 ! ix)" by blast
  have 1: "tie_loop (w # rest) results = Some results'" using w inc tl by simp
  have 2: "length results' = length results" using len by simp
  have 3: "\<forall>ix < length results. results' ! ix =
            (if int ix \<in> set (w # rest) then [results ! ix ! 0, results ! ix ! 1 + 1]
             else results ! ix)"
  proof (intro allI impI)
    fix ix assume ix: "ix < length results"
    show "results' ! ix =
            (if int ix \<in> set (w # rest) then [results ! ix ! 0, results ! ix ! 1 + 1]
             else results ! ix)"
    proof (cases "ix = nat w")
      case True
      then have "int ix = w" using w by simp
      then have "int ix \<notin> set rest" using nin by simp
      then show ?thesis using nth ix True \<open>int ix = w\<close> by simp
    next
      case False
      then have "int ix \<noteq> w" using w by auto
      then show ?thesis using nth ix False by simp
    qed
  qed
  from 1 2 3 show ?case by blast
qed

lemma length_fill_board: "length (fill_board s_comm sample selection) = length selection"
proof -
  have "\<And>sel. length (foldl (\<lambda>sel i. if 4 - int i \<ge> 0 \<and> 4 - int i < 7
            then sel[nat (4 - int i) := sample ! i] else sel) sel is) = length sel" for "is"
    by (induction "is") auto
  then show ?thesis unfolding fill_board_def by simp
qed

lemma simulate_winners:
  assumes nonneg: "\<forall>r \<in> set (replace sim). 0 \<le> r"
    and len: "length board = 7" and start: "0 \<le> start"
  shows "\<exists>sel'. simulate sim board known_hands sample start =
            Some (sel', tied_seats (evaluated_seats sim board (seat_list known_hands sample start)))"
proof -
  have l7: "7 \<le> length board" using len by simp
  let ?k = "evaluated_seats sim board (known_seats known_hands 0)"
  let ?u = "evaluated_seats sim board (unknown_seats (int (length known_hands)) sample start 0)"
  obtain mv1 w1 where r1: "run_winners ?k (0, []) = (mv1, w1)" by (cases "run_winners ?k (0, [])")
  from simulate_known_run[OF nonneg l7, of known_hands 0 0 "[]"] r1 obtain sel1 where
    sk: "simulate_known sim known_hands 0 (board, 0, []) = Some (sel1, mv1, w1)"
    and l1: "length sel1 = length board"
    and ag: "\<forall>a b. sel1[5 := a, 6 := b] = board[5 := a, 6 := b]" by auto
  have l71: "7 \<le> length sel1" using l1 l7 by simp
  have cg: "evaluated_seats sim sel1 (unknown_seats (int (length known_hands)) sample start 0) = ?u"
    by (rule evaluated_seats_cong) (use ag in simp)
  obtain mv2 w2 where r2: "run_winners ?u (mv1, w1) = (mv2, w2)" by (cases "run_winners ?u (mv1, w1)")
  from simulate_unknown_run[OF nonneg l71 start, of 0 "int (length known_hands)" sample mv1 w1] cg r2
  obtain sel2 where
    su: "simulate_unknown sim (int (length known_hands)) sample start 0 (sel1, mv1, w1) = Some (sel2, mv2, w2)"
    by auto
  have all: "run_winners (evaluated_seats sim board (seat_list known_hands sample start)) (0, []) = (mv2, w2)"
    unfolding seat_list_def evaluated_seats_append run_winners_append r1 r2 ..
  have "w2 = tied_seats (evaluated_seats sim board (seat_list known_hands sample start))"
    using run_winners_tied[OF evaluated_seats_nonneg, of sim board "seat_list known_hands sample start"] all
    by simp
  moreover have "simulate sim board known_hands sample start = Some (sel2, w2)"
    unfolding simulate_def Let_def using len sk su by simp
  ultimately show ?thesis by blast
qed

text \<open>
  Claim C3. One trial inside \<open>calculate\<close>: the selection has seven slots, the sample holds
  the missing board cards and two cards per unknown seat, and the results have one row
  \<open>[wins, ties]\<close> per seat. The evaluated seats are those whose evaluation is not negative.
  The trial returns; if exactly one seat achieves the maximum score among the evaluated
  seats, the win counter of that seat grows by one and every other counter is unchanged; if
  two or more seats achieve it, the tie counter of each of them grows by one (a full credit
  each) and every other counter is unchanged; if no seat is evaluated, nothing changes.
\<close>

theorem trial_tally:
  assumes nonneg: "\<forall>r \<in> set (replace sim). 0 \<le> r"
    and sel: "length selection = 7"
    and sc: "0 \<le> s_comm"
    and smp: "int (length sample) = s_comm + 2 * players_unknown" and pu: "0 \<le> players_unknown"
    and res: "int (length results) = int (length known_hands) + players_unknown"
    and rows: "\<forall>row \<in> set results. length row = 2"
  shows "\<exists>selection' results'.
      trial sim known_hands s_comm (selection, results) sample = Some (selection', results')
      \<and> length results' = length results
      \<and> (\<forall>w. tied_seats (evaluated_seats sim (fill_board s_comm sample selection)
                           (seat_list known_hands sample s_comm)) = [w] \<longrightarrow>
             (\<forall>ix < length results. results' ! ix =
                (if int ix = w then [results ! ix ! 0 + 1, results ! ix ! 1] else results ! ix)))
      \<and> (2 \<le> length (tied_seats (evaluated_seats sim (fill_board s_comm sample selection)
                           (seat_list known_hands sample s_comm))) \<longrightarrow>
             (\<forall>ix < length results. results' ! ix =
                (if int ix \<in> set (tied_seats (evaluated_seats sim (fill_board s_comm sample selection)
                           (seat_list known_hands sample s_comm)))
                 then [results ! ix ! 0, results ! ix ! 1 + 1] else results ! ix)))
      \<and> (tied_seats (evaluated_seats sim (fill_board s_comm sample selection)
                           (seat_list known_hands sample s_comm)) = [] \<longrightarrow> results' = results)"
proof -
  let ?board = "fill_board s_comm sample selection"
  let ?seats = "seat_list known_hands sample s_comm"
  let ?scored = "evaluated_seats sim ?board ?seats"
  let ?tied = "tied_seats ?scored"
  have lb: "length ?board = 7" using sel by (simp add: length_fill_board)
  from simulate_winners[OF nonneg lb sc, of known_hands sample] obtain sel' where
    sim: "simulate sim ?board known_hands sample s_comm = Some (sel', ?tied)" by blast
  have dt: "distinct ?tied"
    unfolding tied_seats_def
    by (intro distinct_map_filter distinct_evaluated_seats seat_list_distinct)
  have "set ?tied \<subseteq> set (map fst ?scored)" unfolding tied_seats_def by auto
  also have "\<dots> \<subseteq> set (map fst ?seats)" by (rule fst_evaluated_seats)
  finally have rng: "\<forall>w \<in> set ?tied. 0 \<le> w \<and> w < int (length results)"
    using seat_list_range[OF smp pu, of known_hands] res by auto
  from tie_loop_spec[OF dt rng rows] obtain rt where
    tl: "tie_loop ?tied results = Some rt" and tlen: "length rt = length results"
    and tnth: "\<forall>ix < length results. rt ! ix =
            (if int ix \<in> set ?tied then [results ! ix ! 0, results ! ix ! 1 + 1] else results ! ix)"
    by blast
  show ?thesis
  proof (cases "length ?tied = 1")
    case True
    then obtain w where w: "?tied = [w]" by (cases ?tied) auto
    with rng have wr: "0 \<le> w" "w < int (length results)" by auto
    have r2: "length (results ! nat w) = 2" using rows wr by auto
    let ?rw = "results[nat w := [results ! nat w ! 0 + 1, results ! nat w ! 1]]"
    have ta: "tally ?tied results = Some ?rw"
      using w wr increment_win[OF wr r2] by (simp add: tally_def)
    have tr: "trial sim known_hands s_comm (selection, results) sample = Some (sel', ?rw)"
      using sim ta by (simp add: trial_def)
    have nth: "\<forall>ix < length results. ?rw ! ix =
                (if int ix = w then [results ! ix ! 0 + 1, results ! ix ! 1] else results ! ix)"
    proof (intro allI impI)
      fix ix assume "ix < length results"
      moreover have "(int ix = w) = (ix = nat w)" using wr by auto
      ultimately show "?rw ! ix =
                (if int ix = w then [results ! ix ! 0 + 1, results ! ix ! 1] else results ! ix)"
        by (simp add: nth_list_update)
    qed
    show ?thesis using tr nth w by (intro exI[of _ sel'] exI[of _ ?rw]) simp
  next
    case False
    have ta: "tally ?tied results = Some rt" using False tl by (simp add: tally_def)
    have tr: "trial sim known_hands s_comm (selection, results) sample = Some (sel', rt)"
      using sim ta by (simp add: trial_def)
    have e: "?tied = [] \<longrightarrow> rt = results" using tl by auto
    show ?thesis using tr tlen tnth e False by (intro exI[of _ sel'] exI[of _ rt]) auto
  qed
qed

lemma evaluate_selection_sorted7:
  assumes "sort selection = [a, b, c, d, e, f, g]"
  shows "evaluate_selection sim selection =
     do {
       (log, key) \<leftarrow> to_ckey sim [c, d, e, f, g];
       if key < 0 \<or> key \<ge> static_cast_int (int (length (table sim)))
       then Some (log @ [Key_out_of_bounds_in_evaluate_selection key], 0)
       else do {
         max_score \<leftarrow> at (table sim) key;
         (hand', key', max_score') \<leftarrow>
           eval_loop sim [a, b, c, d, e, f, g] loop_indices ([c, d, e, f, g], key, max_score);
         Some (log, max_score')
       }
     }"
  unfolding evaluate_selection_def Let_def assms
  using base_hand[of "[a, b, c, d, e, f, g]"] by simp

lemmas example_eval = to_ckey_def example_fields example_replace loop_indices_list eval_step_def
  at_map_upt inside_map_upt at_def Let_def static_cast_int_small

lemma example_seat_scores:
  "evaluate_selection example_sim [0, 11, 12, 6, 5, 51, 50] = Some ([], 30)"
  "evaluate_selection example_sim [0, 11, 12, 6, 5, 14, 18] = Some ([], 26)"
  "evaluate_selection example_sim [0, 11, 12, 6, 5, 13, 26] = Some ([], 28)"
  "evaluate_selection example_sim [0, 11, 12, 6, 5, 20, 21] = Some ([], 29)"
  "evaluate_selection example_sim [0, 11, 12, 6, 5, 30, 31] = Some ([], 30)"
  by (subst evaluate_selection_sorted7, simp, simp add: example_eval)+

lemma example_boards:
  "fill_board 2 [5, 6, 14, 18, 13, 26] [0, 11, 12, 0, 0, 0, 0] = [0, 11, 12, 6, 5, 0, 0]"
  "fill_board 2 [5, 6, 20, 21, 30, 31] [0, 11, 12, 0, 0, 0, 0] = [0, 11, 12, 6, 5, 0, 0]"
  by (simp_all add: fill_board_def upt_rec)

lemma example_seat_lists:
  "seat_list [[51, 50]] [5, 6, 14, 18, 13, 26] 2 = [(0, 51, 50), (1, 14, 18), (2, 13, 26)]"
  "seat_list [[51, 50]] [5, 6, 20, 21, 30, 31] 2 = [(0, 51, 50), (1, 20, 21), (2, 30, 31)]"
  by (simp_all add: seat_list_def unknown_seats.simps)

lemma example_single_winner:
  "tied_seats (evaluated_seats example_sim (fill_board 2 [5, 6, 14, 18, 13, 26] [0, 11, 12, 0, 0, 0, 0])
      (seat_list [[51, 50]] [5, 6, 14, 18, 13, 26] 2)) = [0]"
  unfolding example_boards example_seat_lists by (simp add: evaluated_seats_def example_seat_scores tied_seats_def)

lemma example_two_winners:
  "tied_seats (evaluated_seats example_sim (fill_board 2 [5, 6, 20, 21, 30, 31] [0, 11, 12, 0, 0, 0, 0])
      (seat_list [[51, 50]] [5, 6, 20, 21, 30, 31] 2)) = [0, 2]"
  unfolding example_boards example_seat_lists by (simp add: evaluated_seats_def example_seat_scores tied_seats_def)

text \<open>
  A flop, one known hand and two unknown seats, with the example tables: in the first
  sample the known hand alone has the best score; in the second it ties with the last seat.
\<close>

theorem trial_tally_witness:
  "(\<exists>selection' results'.
      trial example_sim [[51, 50]] 2 ([0, 11, 12, 0, 0, 0, 0], [[4, 1], [2, 0], [0, 7]])
        [5, 6, 14, 18, 13, 26] = Some (selection', results')
      \<and> results' ! 0 = [5, 1] \<and> results' ! 1 = [2, 0] \<and> results' ! 2 = [0, 7])
   \<and> (\<exists>selection' results'.
      trial example_sim [[51, 50]] 2 ([0, 11, 12, 0, 0, 0, 0], [[4, 1], [2, 0], [0, 7]])
        [5, 6, 20, 21, 30, 31] = Some (selection', results')
      \<and> results' ! 0 = [4, 2] \<and> results' ! 1 = [2, 0] \<and> results' ! 2 = [0, 8])"
proof -
  have n: "\<forall>r \<in> set (replace example_sim). 0 \<le> r" by (simp add: example_replace)
  have r: "\<forall>row \<in> set [[4, 1], [2, 0], [0, 7::int]]. length row = 2" by simp
  from trial_tally[OF n _ _ _ _ _ r, of "[0, 11, 12, 0, 0, 0, 0]" 2 "[5, 6, 14, 18, 13, 26]" 2 "[[51, 50]]"]
  obtain s1 r1 where a: "trial example_sim [[51, 50]] 2 ([0, 11, 12, 0, 0, 0, 0], [[4, 1], [2, 0], [0, 7]])
        [5, 6, 14, 18, 13, 26] = Some (s1, r1)"
    and a1: "\<forall>ix<3. r1 ! ix = (if int ix = 0 then [[[4, 1], [2, 0], [0, 7]] ! ix ! 0 + 1, [[4, 1], [2, 0], [0, 7]] ! ix ! 1]
                          else [[4, 1], [2, 0], [0, 7]] ! ix)"
    unfolding example_single_winner by auto
  from trial_tally[OF n _ _ _ _ _ r, of "[0, 11, 12, 0, 0, 0, 0]" 2 "[5, 6, 20, 21, 30, 31]" 2 "[[51, 50]]"]
  obtain s2 r2 where b: "trial example_sim [[51, 50]] 2 ([0, 11, 12, 0, 0, 0, 0], [[4, 1], [2, 0], [0, 7]])
        [5, 6, 20, 21, 30, 31] = Some (s2, r2)"
    and b1: "\<forall>ix<3. r2 ! ix = (if int ix \<in> set [0, 2] then [[[4, 1], [2, 0], [0, 7]] ! ix ! 0, [[4, 1], [2, 0], [0, 7]] ! ix ! 1 + 1]
                          else [[4, 1], [2, 0], [0, 7]] ! ix)"
    unfolding example_two_winners by auto
  have "r1 ! 0 = [5, 1] \<and> r1 ! 1 = [2, 0] \<and> r1 ! 2 = [0, 7]"
    using a1[rule_format, of 0] a1[rule_format, of 1] a1[rule_format, of 2] by simp
  moreover have "r2 ! 0 = [4, 2] \<and> r2 ! 1 = [2, 0] \<and> r2 ! 2 = [0, 8]"
    using b1[rule_format, of 0] b1[rule_format, of 1] b1[rule_format, of 2] by simp
  ultimately show ?thesis using a b by simp
qed

end
